theory Spec2Isabelle
  imports Complex_Main "HOL-Library.Sublist"
begin

section \<open>Strings and the characters the generator treats specially\<close>

definition squote :: char where "squote = CHR 0x27"
definition dquote :: char where "dquote = CHR 0x22"
definition backslash :: char where "backslash = CHR 0x5C"
definition newline :: char where "newline = CHR 0x0A"

text \<open>\<open>s.replace(/c/g, r)\<close> for a single literal character \<open>c\<close>: every occurrence of
  \<open>c\<close> is replaced by the string \<open>r\<close>.\<close>

definition replace_char :: "char \<Rightarrow> string \<Rightarrow> string \<Rightarrow> string" where
  "replace_char c r s = concat (map (\<lambda>x. if x = c then r else [x]) s)"

text \<open>\<open>s.replace(/\n/g, r)\<close> for a replacement string \<open>r\<close> that is not a literal
  of the program: in \<open>r\<close> the pair \<open>$$\<close> stands for one \<open>$\<close>, \<open>$&\<close> for the
  matched text, \<open>$`\<close> for the part of \<open>s\<close> before the match and \<open>$'\<close> for the part
  after it.  The pattern has no group, so \<open>$\<close> before a digit or \<open><\<close>, like every
  other \<open>$\<close>, is copied.\<close>

definition dollar :: char where "dollar = CHR 0x24"

fun get_substitution :: "string \<Rightarrow> string \<Rightarrow> string \<Rightarrow> string \<Rightarrow> string" where
  "get_substitution matched front rest [] = []"
| "get_substitution matched front rest [c] = [c]"
| "get_substitution matched front rest (c # d # r) =
     (if c = dollar \<and> d = dollar then dollar # get_substitution matched front rest r
      else if c = dollar \<and> d = CHR 0x26 then matched @ get_substitution matched front rest r
      else if c = dollar \<and> d = CHR 0x60 then front @ get_substitution matched front rest r
      else if c = dollar \<and> d = squote then rest @ get_substitution matched front rest r
      else c # get_substitution matched front rest (d # r))"

text \<open>The scan of \<open>s\<close>: \<open>front\<close> is what has been passed, each line feed is replaced
  by the substitution made at its position.\<close>

fun replace_newlines :: "string \<Rightarrow> string \<Rightarrow> string \<Rightarrow> string" where
  "replace_newlines r front [] = []"
| "replace_newlines r front (c # cs) =
     (if c = newline
      then get_substitution [c] front cs r @ replace_newlines r (front @ [c]) cs
      else c # replace_newlines r (front @ [c]) cs)"

text \<open>Strings are lists of 8-bit characters; a JavaScript string is modelled by its
  code units, all below 256.  The character classes of the regular expressions:
  \<open>\w\<close> is \<open>[A-Za-z0-9_]\<close>, \<open>\s\<close> is (below 256) tab, line feed, vertical tab,
  form feed, carriage return, space and the no-break space.\<close>

definition lower_chars :: string where "lower_chars = ''abcdefghijklmnopqrstuvwxyz''"
definition upper_chars :: string where "upper_chars = ''ABCDEFGHIJKLMNOPQRSTUVWXYZ''"
definition digit_chars :: string where "digit_chars = ''0123456789''"

definition is_word :: "char \<Rightarrow> bool" where
  "is_word c \<longleftrightarrow> c \<in> set (lower_chars @ upper_chars @ digit_chars @ ''_'')"

definition is_space :: "char \<Rightarrow> bool" where
  "is_space c \<longleftrightarrow> c \<in> set [CHR 0x09, CHR 0x0A, CHR 0x0B, CHR 0x0C, CHR 0x0D, CHR 0x20, CHR 0xA0]"

text \<open>\<open>'' + n\<close> for an integer \<open>n\<close>: its decimal digits.\<close>

fun digits :: "nat \<Rightarrow> string" where
  "digits n = (if n < 10 then [digit_chars ! n] else digits (n div 10) @ [digit_chars ! (n mod 10)])"

declare digits.simps [simp del]

definition show_int :: "int \<Rightarrow> string" where
  "show_int i = (if i < 0 then ''-'' @ digits (nat (- i)) else digits (nat i))"

text \<open>\<open>lines.join(sep)\<close>.\<close>

fun join :: "string \<Rightarrow> string list \<Rightarrow> string" where
  "join sep [] = []"
| "join sep [x] = x"
| "join sep (x # y # ys) = x @ sep @ join sep (y # ys)"

text \<open>Modelled from the spec: the string-repeat primitive (package \<open>repeat-string\<close>,
  not part of the repository): the unit repeated \<open>n\<close> times, the empty string for
  \<open>n \<le> 0\<close>.\<close>

definition repeat :: "string \<Rightarrow> int \<Rightarrow> string" where
  "repeat str n = concat (replicate (nat n) str)"

text \<open>\<open>s.replace(/\\?#([[{])/g, '\\#$1')\<close>: scanning from the left, an optional
  backslash followed by \<open>#\<close> and an opening bracket or brace is replaced by
  backslash, \<open>#\<close> and that bracket; everything else is copied.\<close>

definition is_open :: "char \<Rightarrow> bool" where
  "is_open c \<longleftrightarrow> c = CHR ''['' \<or> c = CHR ''{''"

fun escape_interp :: "string \<Rightarrow> string" where
  "escape_interp [] = []"
| "escape_interp (c # cs) =
     (if c = backslash then
        (case cs of
           d # e # rest \<Rightarrow>
             if d = CHR ''#'' \<and> is_open e then backslash # CHR ''#'' # e # escape_interp rest
             else c # escape_interp cs
         | _ \<Rightarrow> c # escape_interp cs)
      else if c = CHR ''#'' then
        (case cs of
           e # rest \<Rightarrow>
             if is_open e then backslash # CHR ''#'' # e # escape_interp rest
             else c # escape_interp cs
         | [] \<Rightarrow> [c])
      else c # escape_interp cs)"

text \<open>\<open>s.replace(/#([[{])/g, '\\#$1')\<close>: the same without the optional backslash.\<close>

fun escape_hash :: "string \<Rightarrow> string" where
  "escape_hash [] = []"
| "escape_hash (c # cs) =
     (if c = CHR ''#'' then
        (case cs of
           e # rest \<Rightarrow>
             if is_open e then backslash # CHR ''#'' # e # escape_hash rest
             else c # escape_hash cs
         | [] \<Rightarrow> [c])
      else c # escape_hash cs)"

text \<open>\<open>(s.match(/\w+(\s+|$)/g) || []).length\<close>: the number of matches of a
  run of word characters followed by white space or the end of the string.  A match
  can only start in a maximal run of word characters and must reach the end of that
  run, so the matches are the maximal runs that are followed by a white-space
  character or end the string.  The scanner carries whether it is inside such a run.\<close>

fun count_words_from :: "bool \<Rightarrow> string \<Rightarrow> nat" where
  "count_words_from inw [] = (if inw then 1 else 0)"
| "count_words_from inw (c # cs) =
     (if is_word c then count_words_from True cs
      else if inw \<and> is_space c then Suc (count_words_from False cs)
      else count_words_from False cs)"

definition count_words :: "string \<Rightarrow> nat" where
  "count_words s = count_words_from False s"

text \<open>The attribute patterns.  \<open>/^\-?[_a-z][_a-z0-9\-]*$/i\<close> for a class:\<close>

definition is_alpha_us :: "char \<Rightarrow> bool" where
  "is_alpha_us c \<longleftrightarrow> c \<in> set (lower_chars @ upper_chars @ ''_'')"

definition is_word_dash :: "char \<Rightarrow> bool" where
  "is_word_dash c \<longleftrightarrow> is_word c \<or> c = CHR ''-''"

fun class_pattern :: "string \<Rightarrow> bool" where
  "class_pattern [] = False"
| "class_pattern (c # cs) =
     (if c = CHR ''-'' then (case cs of [] \<Rightarrow> False | d # ds \<Rightarrow> is_alpha_us d \<and> list_all is_word_dash ds)
      else is_alpha_us c \<and> list_all is_word_dash cs)"

text \<open>\<open>/^[\w-]+$/\<close> for an id:\<close>

definition id_pattern :: "string \<Rightarrow> bool" where
  "id_pattern s \<longleftrightarrow> s \<noteq> [] \<and> list_all is_word_dash s"

text \<open>\<open>/^\w[^()[\]=!,`'"\s]*$/\<close> for an attribute name that needs no quotes:\<close>

definition name_rest_char :: "char \<Rightarrow> bool" where
  "name_rest_char c \<longleftrightarrow>
     c \<notin> set [CHR ''('', CHR '')'', CHR ''['', CHR '']'', CHR ''='', CHR ''!'', CHR '','',
               CHR 0x60, squote, dquote] \<and> \<not> is_space c"

fun name_pattern :: "string \<Rightarrow> bool" where
  "name_pattern [] = False"
| "name_pattern (c # cs) = (is_word c \<and> list_all name_rest_char cs)"

section \<open>The syntax tree\<close>

text \<open>An attribute \<open>{name, val, escaped}\<close>; \<open>val\<close> is the source text of the value
  expression.\<close>

record attr =
  attr_name :: string
  attr_val :: string
  attr_escaped :: bool

text \<open>The nodes of the tree, one constructor per \<open>type\<close> tag the generator has a handler
  for.  Every constructor starts with the common fields \<open>line\<close> and \<open>filename\<close>
  (absent: \<open>None\<close>); the other fields follow in the order given below.  A child
  reference is a \<open>node option\<close>: \<open>None\<close> is JavaScript's \<open>undefined\<close>.  Any
  child may be any node, as in the source, which dispatches on the \<open>type\<close> tag it
  finds.  \<open>Unknown t\<close> is a node whose \<open>type\<close> is the string \<open>t\<close> and that has
  no other field the generator reads.

  \<^item> \<open>Block line filename yield nodes\<close>
  \<^item> \<open>NamedBlock line filename name mode yield nodes\<close>
  \<^item> \<open>Tag line filename name attrs attributeBlocks selfClosing buffer code block\<close>
  \<^item> \<open>Mixin line filename name args call attrs attributeBlocks block\<close>
  \<^item> \<open>MixinBlock line filename\<close>
  \<^item> \<open>Text line filename val isHtml\<close>
  \<^item> \<open>Code line filename val buffer escape block\<close>
  \<^item> \<open>Comment line filename val buffer\<close>
  \<^item> \<open>BlockComment line filename val buffer block\<close>
  \<^item> \<open>Case line filename expr block\<close>
  \<^item> \<open>When line filename expr block\<close>
  \<^item> \<open>Conditional line filename test consequent alternate\<close>
  \<^item> \<open>While line filename test block\<close>
  \<^item> \<open>Each line filename val key obj block alternative\<close>
  \<^item> \<open>Doctype line filename val\<close>
  \<^item> \<open>Extends line filename file\<close>
  \<^item> \<open>Include line filename file filter attrs block\<close>
  \<^item> \<open>FileReference line filename path\<close>
  \<^item> \<open>Filter line filename name attrs block\<close>
  \<^item> \<open>Unknown line filename type\<close>\<close>

datatype node =
    Block int "string option" bool "node list"
  | NamedBlock int "string option" string string bool "node list"
  | Tag int "string option" string "attr list" "string list" bool bool "node option" "node option"
  | Mixin int "string option" string "string option" bool "attr list" "string list" "node option"
  | MixinBlock int "string option"
  | Text int "string option" string bool
  | Code int "string option" string bool bool "node option"
  | Comment int "string option" string bool
  | BlockComment int "string option" string bool "node option"
  | Case int "string option" string "node option"
  | When int "string option" string "node option"
  | Conditional int "string option" string "node option" "node option"
  | While int "string option" string "node option"
  | Each int "string option" string "string option" string "node option" "node option"
  | Doctype int "string option" "string option"
  | Extends int "string option" "node option"
  | Include int "string option" "node option" "string option" "attr list" "node option"
  | FileReference int "string option" string
  | Filter int "string option" string "attr list" "node option"
  | Unknown int "string option" string

text \<open>\<open>node.type\<close>.\<close>

fun ntype :: "node \<Rightarrow> string" where
  "ntype (Block l f y ns) = ''Block''"
| "ntype (NamedBlock l f nm md y ns) = ''NamedBlock''"
| "ntype (Tag l f nm as ab sc bf cd blk) = ''Tag''"
| "ntype (Mixin l f nm ar cl as ab blk) = ''Mixin''"
| "ntype (MixinBlock l f) = ''MixinBlock''"
| "ntype (Text l f v h) = ''Text''"
| "ntype (Code l f v bf es blk) = ''Code''"
| "ntype (Comment l f v bf) = ''Comment''"
| "ntype (BlockComment l f v bf blk) = ''BlockComment''"
| "ntype (Case l f e blk) = ''Case''"
| "ntype (When l f e blk) = ''When''"
| "ntype (Conditional l f t c a) = ''Conditional''"
| "ntype (While l f t blk) = ''While''"
| "ntype (Each l f v k ob blk alt) = ''Each''"
| "ntype (Doctype l f v) = ''Doctype''"
| "ntype (Extends l f fl) = ''Extends''"
| "ntype (Include l f fl flt as blk) = ''Include''"
| "ntype (FileReference l f p) = ''FileReference''"
| "ntype (Filter l f nm as blk) = ''Filter''"
| "ntype (Unknown l f t) = t"

text \<open>\<open>node.line\<close> and \<open>node.filename\<close>.\<close>

fun line :: "node \<Rightarrow> int" where
  "line (Block l f y ns) = l"
| "line (NamedBlock l f nm md y ns) = l"
| "line (Tag l f nm as ab sc bf cd blk) = l"
| "line (Mixin l f nm ar cl as ab blk) = l"
| "line (MixinBlock l f) = l"
| "line (Text l f v h) = l"
| "line (Code l f v bf es blk) = l"
| "line (Comment l f v bf) = l"
| "line (BlockComment l f v bf blk) = l"
| "line (Case l f e blk) = l"
| "line (When l f e blk) = l"
| "line (Conditional l f t c a) = l"
| "line (While l f t blk) = l"
| "line (Each l f v k ob blk alt) = l"
| "line (Doctype l f v) = l"
| "line (Extends l f fl) = l"
| "line (Include l f fl flt as blk) = l"
| "line (FileReference l f p) = l"
| "line (Filter l f nm as blk) = l"
| "line (Unknown l f t) = l"

fun filename :: "node \<Rightarrow> string option" where
  "filename (Block l f y ns) = f"
| "filename (NamedBlock l f nm md y ns) = f"
| "filename (Tag l f nm as ab sc bf cd blk) = f"
| "filename (Mixin l f nm ar cl as ab blk) = f"
| "filename (MixinBlock l f) = f"
| "filename (Text l f v h) = f"
| "filename (Code l f v bf es blk) = f"
| "filename (Comment l f v bf) = f"
| "filename (BlockComment l f v bf blk) = f"
| "filename (Case l f e blk) = f"
| "filename (When l f e blk) = f"
| "filename (Conditional l f t c a) = f"
| "filename (While l f t blk) = f"
| "filename (Each l f v k ob blk alt) = f"
| "filename (Doctype l f v) = f"
| "filename (Extends l f fl) = f"
| "filename (Include l f fl flt as blk) = f"
| "filename (FileReference l f p) = f"
| "filename (Filter l f nm as blk) = f"
| "filename (Unknown l f t) = f"

text \<open>The fields the generator reads without looking at the type first.  A field
  the node does not have reads as \<open>undefined\<close>: \<open>None\<close> for a reference or a
  string, \<open>False\<close> where only truthiness is used.\<close>

fun nodes :: "node \<Rightarrow> node list option" where
  "nodes (Block l f y ns) = Some ns"
| "nodes (NamedBlock l f nm md y ns) = Some ns"
| "nodes n = None"

fun yield :: "node \<Rightarrow> bool" where
  "yield (Block l f y ns) = y"
| "yield (NamedBlock l f nm md y ns) = y"
| "yield n = False"

fun block :: "node \<Rightarrow> node option" where
  "block (Tag l f nm as ab sc bf cd blk) = blk"
| "block (Mixin l f nm ar cl as ab blk) = blk"
| "block (Code l f v bf es blk) = blk"
| "block (BlockComment l f v bf blk) = blk"
| "block (Case l f e blk) = blk"
| "block (When l f e blk) = blk"
| "block (While l f t blk) = blk"
| "block (Each l f v k ob blk alt) = blk"
| "block (Include l f fl flt as blk) = blk"
| "block (Filter l f nm as blk) = blk"
| "block n = None"

fun call :: "node \<Rightarrow> bool" where
  "call (Mixin l f nm ar cl as ab blk) = cl"
| "call n = False"

section \<open>Options\<close>

record options =
  indentChar :: string
  useColonOpt :: bool
  preferredQuote :: string

definition defaultOptions :: options where
  "defaultOptions = \<lparr> indentChar = ''  '', useColonOpt = False, preferredQuote = [squote] \<rparr>"

section \<open>Quoting\<close>

text \<open>\<open>Compiler.prototype.quote\<close> (index.js, lines 54-78).  The test
  \<open>name.indexOf(c) !== -1\<close> is membership of \<open>c\<close> in the string.\<close>

definition quote :: "options \<Rightarrow> string \<Rightarrow> string" where
  "quote opts name =
    (if preferredQuote opts = [squote] then
       (if squote \<in> set name \<and> dquote \<notin> set name
        then [dquote] @ name @ [dquote]
        else [squote] @ replace_char squote [backslash, squote] name @ [squote])
     else
       (if dquote \<in> set name \<and> squote \<notin> set name
        then [squote] @ name @ [squote]
        else [dquote] @ replace_char dquote [backslash, dquote] name @ [dquote]))"

section \<open>Attributes\<close>

text \<open>The value \<open>constantinople.toConstant\<close> returns: a string, a boolean, or any
  other value, of which the generator uses the truthiness and the conversion to a
  string only.\<close>

datatype jsval = JString string | JBool bool | JOther bool string

fun truthy :: "jsval \<Rightarrow> bool" where
  "truthy (JString x) = (x \<noteq> [])"
| "truthy (JBool b) = b"
| "truthy (JOther t x) = t"

fun to_string :: "jsval \<Rightarrow> string" where
  "to_string (JString x) = x"
| "to_string (JBool b) = (if b then ''true'' else ''false'')"
| "to_string (JOther t x) = x"

text \<open>The constant-folding oracle (package \<open>constantinople\<close>, not part of the
  repository) is a parameter of the model: \<open>None\<close> when \<open>toConstant\<close> throws.\<close>

type_synonym const_oracle = "string \<Rightarrow> jsval option"

text \<open>The accumulator of the \<open>forEach\<close> in \<open>attrs\<close>: \<open>regularAttrs\<close>,
  \<open>classes\<close> and \<open>id\<close> (\<open>None\<close> while undefined).\<close>

record attrs_acc =
  regularAttrs :: "string list"
  classes :: string
  id_val :: "jsval option"

text \<open>\<open>constVal\<close>: the constant value of the attribute, or the empty string when
  \<open>toConstant\<close> throws (lines 85-88).\<close>

definition const_val :: "const_oracle \<Rightarrow> attr \<Rightarrow> jsval" where
  "const_val toConstant a = (case toConstant (attr_val a) of Some v \<Rightarrow> v | None \<Rightarrow> JString [])"

text \<open>\<open>attrOut\<close>, the text of an attribute of the parenthesized list (lines 97-114).\<close>

definition attr_out :: "const_oracle \<Rightarrow> options \<Rightarrow> attr \<Rightarrow> string" where
  "attr_out toConstant opts a =
     (let attrOut =
            (if name_pattern (attr_name a) then attr_name a
             else quote opts (replace_char backslash [backslash, backslash] (attr_name a)))
      in if const_val toConstant a = JBool True then attrOut
         else attrOut @ (if \<not> attr_escaped a then ''!'' else []) @ ''='' @ attr_val a)"

text \<open>The body of the \<open>forEach\<close> (lines 84-118).\<close>

definition attr_step :: "const_oracle \<Rightarrow> options \<Rightarrow> attrs_acc \<Rightarrow> attr \<Rightarrow> attrs_acc" where
  "attr_step toConstant opts acc a =
    (let constVal = const_val toConstant a
     in if attr_name a = ''class'' \<and> \<not> attr_escaped a \<and> truthy constVal \<and>
            class_pattern (to_string constVal)
        then acc \<lparr> classes := classes acc @ ''.'' @ to_string constVal \<rparr>
        else if attr_name a = ''id'' \<and> \<not> (case id_val acc of None \<Rightarrow> False | Some v \<Rightarrow> truthy v) \<and>
            \<not> attr_escaped a \<and> truthy constVal \<and> id_pattern (to_string constVal)
        then acc \<lparr> id_val := Some constVal \<rparr>
        else acc \<lparr> regularAttrs := regularAttrs acc @ [attr_out toConstant opts a] \<rparr>)"

text \<open>\<open>Compiler.prototype.attrs\<close> (index.js, lines 80-126).\<close>

definition attrs :: "const_oracle \<Rightarrow> options \<Rightarrow> attr list \<Rightarrow> string" where
  "attrs toConstant opts as =
    (let acc = foldl (attr_step toConstant opts)
                 \<lparr> regularAttrs = [], classes = [], id_val = None \<rparr> as
     in (case id_val acc of
           None \<Rightarrow> []
         | Some v \<Rightarrow> if truthy v then ''#'' @ to_string v else [])
        @ classes acc
        @ (if regularAttrs acc \<noteq> [] then ''('' @ join '' '' (regularAttrs acc) @ '')'' else []))"

text \<open>\<open>Compiler.prototype.attributeBlocks\<close> (lines 128-132).\<close>

definition attributeBlocks :: "string list \<Rightarrow> string" where
  "attributeBlocks bs = foldl (\<lambda>prev cur. prev @ ''&attributes('' @ cur @ '')'') [] bs"

section \<open>Layout heuristics\<close>

text \<open>\<open>Compiler.prototype.useColon\<close> (lines 134-148).  The two object literals are
  looked up by the type string; \<open>parent.block === block\<close> compares references, and
  every caller that passes a \<open>Tag\<close>, \<open>Mixin\<close> or \<open>When\<close> parent passes that
  parent's own \<open>block\<close>, so the comparison of the trees agrees with it.\<close>

definition useColon :: "options \<Rightarrow> node \<Rightarrow> node option \<Rightarrow> bool" where
  "useColon opts blk parent =
    (if \<not> useColonOpt opts then False
     else
       (case parent of
          None \<Rightarrow> False
        | Some p \<Rightarrow>
            ((ntype p = ''Mixin'' \<and> call p) \<or> ntype p = ''Tag'' \<or> ntype p = ''When'') \<and>
            block p = Some blk \<and>
            (case nodes blk of
               Some [n] \<Rightarrow> (ntype n = ''Mixin'' \<and> call n) \<or> ntype n = ''Tag''
             | _ \<Rightarrow> False)))"

text \<open>\<open>Compiler.prototype.useDot\<close> (lines 151-186).  \<open>prev\<close> is the previous sibling,
  the parent for the first child, and \<open>{line: -1}\<close> without a parent.\<close>

definition prev_line :: "node option \<Rightarrow> int" where
  "prev_line prev = (case prev of None \<Rightarrow> - 1 | Some p \<Rightarrow> line p)"

definition prev_is_newline_text :: "node option \<Rightarrow> bool" where
  "prev_is_newline_text prev =
     (case prev of Some (Text l f v h) \<Rightarrow> v = [newline] | _ \<Rightarrow> False)"

definition starts_line :: "node \<Rightarrow> node option \<Rightarrow> bool" where
  "starts_line n prev \<longleftrightarrow> line n > prev_line prev \<or> prev_is_newline_text prev"

text \<open>The loop: \<open>None\<close> is the early \<open>return false\<close>, otherwise the final
  \<open>words\<close> and \<open>codesWithOwnLine\<close>.\<close>

fun useDot_loop :: "node option \<Rightarrow> node list \<Rightarrow> nat \<Rightarrow> nat \<Rightarrow> bool \<Rightarrow> (nat \<times> nat) option" where
  "useDot_loop prev [] words codesWithOwnLine prevStartLine = Some (words, codesWithOwnLine)"
| "useDot_loop prev (n # ns) words codesWithOwnLine prevStartLine =
     (case n of
        Text l f v h \<Rightarrow>
          useDot_loop (Some n) ns (words + count_words v) codesWithOwnLine (starts_line n prev)
      | Code l f v bf es blk \<Rightarrow>
          if bf \<and> blk = None then
            useDot_loop (Some n) ns words
              (if starts_line n prev \<and> prevStartLine then Suc codesWithOwnLine
               else codesWithOwnLine)
              (starts_line n prev)
          else None
      | _ \<Rightarrow> None)"

text \<open>\<open>codesWithOwnLine / lines < 0.35\<close>.  The quotient is a double; for a line span
  of zero it is \<open>Infinity\<close> or \<open>NaN\<close> and the comparison is false.  Otherwise the
  comparison is made on the exact quotient: the double nearest to 35/100 is what the
  literal \<open>0.35\<close> and the division 7k/20k both give, and a quotient of integers
  below 2^50 that differs from 35/100 differs from it by more than the rounding error.\<close>

definition ratio_below :: "nat \<Rightarrow> int \<Rightarrow> bool" where
  "ratio_below codesWithOwnLine lines \<longleftrightarrow>
     lines \<noteq> 0 \<and> (real codesWithOwnLine / real_of_int lines < 35 / 100)"

definition useDot :: "node \<Rightarrow> node option \<Rightarrow> bool" where
  "useDot blk parent =
    (case nodes blk of
       None \<Rightarrow> False
     | Some ns \<Rightarrow>
         if ns = [] then False
         else
           (let lines = line (last ns) - line (hd ns) + 1
            in if lines = 1 then False
               else
                 (case useDot_loop parent ns 0 0 False of
                    None \<Rightarrow> False
                  | Some (words, codesWithOwnLine) \<Rightarrow>
                      words > 0 \<and> ratio_below codesWithOwnLine lines)))"

section \<open>Errors and the compiler's state\<close>

text \<open>The errors the generator throws:
  \<^item> \<open>MissingNode msg\<close>: the \<open>TypeError\<close> of \<open>visit\<close> for an absent node (line 219);
  \<^item> \<open>UnsupportedNodeType msg\<close>: the \<open>TypeError\<close> of \<open>visit\<close> for a type without a
    handler (line 232);
  \<^item> \<open>UnexpectedPipelessChild n\<close>: \<open>Error('unexpected node: ' + JSON.stringify(n))\<close>
    (line 204);
  \<^item> \<open>IllegalInlineHtml\<close>: \<open>Error('HTML text and inline')\<close> (line 383);
  \<^item> \<open>InvalidFilterChain n\<close>: \<open>Error('filter with more than one non-text nodes: ' +
    JSON.stringify(n))\<close> (line 506);
  \<^item> \<open>NoBlock\<close>: \<open>Error('there is no block in this node')\<close> of \<open>getBlock\<close> (line 587);
  \<^item> \<open>NativeTypeError\<close>: the \<open>TypeError\<close> JavaScript raises when a property of
    \<open>undefined\<close> is read (\<open>tag.block.nodes\<close> without a block);
  \<^item> \<open>OutsideSchema\<close>: a handler called on a node of another type (a \<open>Tag\<close> whose
    \<open>code\<close> is not a \<open>Code\<close>, an \<open>Unknown\<close> carrying a handled type): the tree is
    not one of the data model, and what JavaScript does with it is not modelled.
  The errors with a node carry the node in place of its JSON text.\<close>

datatype error =
    MissingNode string
  | UnsupportedNodeType string
  | UnexpectedPipelessChild node
  | IllegalInlineHtml
  | InvalidFilterChain node
  | NoBlock
  | NativeTypeError
  | OutsideSchema

text \<open>The fields of a \<open>Compiler\<close> object.\<close>

record compiler =
  options :: options
  node :: node
  indents :: int
  nested :: bool
  inline :: bool
  buf :: "string list"

text \<open>A call either returns, or throws; both leave the object in some state.\<close>

datatype result = Done compiler | Throw error compiler

definition then_do :: "result \<Rightarrow> (compiler \<Rightarrow> result) \<Rightarrow> result" where
  "then_do r k = (case r of Done s \<Rightarrow> k s | Throw e s \<Rightarrow> Throw e s)"

text \<open>\<open>indent\<close>, \<open>buffer\<close> and \<open>bufLine\<close> (lines 41-52).  \<open>buffer\<close> on an empty
  \<open>buf\<close> assigns the property \<open>-1\<close> of the array, which is no element of it: no
  line changes.\<close>

definition indent :: "int \<Rightarrow> compiler \<Rightarrow> string" where
  "indent add s = repeat (indentChar (options s)) (indents s + add)"

definition buffer :: "string \<Rightarrow> compiler \<Rightarrow> compiler" where
  "buffer content s =
     (if buf s = [] then s else s \<lparr> buf := butlast (buf s) @ [last (buf s) @ content] \<rparr>)"

definition bufLine :: "string \<Rightarrow> int \<Rightarrow> compiler \<Rightarrow> compiler" where
  "bufLine content add s = s \<lparr> buf := buf s @ [indent add s @ content] \<rparr>"

text \<open>\<open>visitPipelessText\<close> (lines 188-192).\<close>

definition visitPipelessText :: "string \<Rightarrow> bool \<Rightarrow> compiler \<Rightarrow> compiler" where
  "visitPipelessText v noEscape s =
     (let b = replace_newlines (newline # indent 0 s) [] v;
          b = (if \<not> noEscape then escape_interp b else b)
      in buffer b s)"

text \<open>\<open>getBlock\<close> (lines 560-589).\<close>

fun getBlock :: "node \<Rightarrow> error + node option" where
  "getBlock (Block l f y ns) = Inr (Some (Block l f y ns))"
| "getBlock (NamedBlock l f nm md y ns) = Inr (Some (NamedBlock l f nm md y ns))"
| "getBlock (BlockComment l f v bf blk) = Inr blk"
| "getBlock (Case l f e blk) = Inr blk"
| "getBlock (Code l f v bf es blk) = Inr blk"
| "getBlock (Each l f v k ob blk alt) = Inr blk"
| "getBlock (Filter l f nm as blk) = Inr blk"
| "getBlock (Mixin l f nm ar cl as ab blk) = Inr blk"
| "getBlock (Tag l f nm as ab sc bf cd blk) = Inr blk"
| "getBlock (When l f e blk) = Inr blk"
| "getBlock (While l f t blk) = Inr blk"
| "getBlock (Conditional l f t c a) = Inr c"
| "getBlock n = Inl NoBlock"

section \<open>The visitor\<close>

text \<open>The messages of the two \<open>TypeError\<close>s of \<open>visit\<close> (lines 211-233).\<close>

definition file_or_Jade :: "node \<Rightarrow> string" where
  "file_or_Jade n = (case filename n of None \<Rightarrow> ''Jade'' | Some x \<Rightarrow> if x = [] then ''Jade'' else x)"

definition missing_msg :: "node option \<Rightarrow> string" where
  "missing_msg parent =
     (case parent of
        Some p \<Rightarrow> ''A child of '' @ ntype p @ '' ('' @ file_or_Jade p @ '':'' @ show_int (line p) @ '')''
      | None \<Rightarrow> ''A top-level node'')
     @ '' is undefined, expected a Jade AST Node.''"

definition unsupported_msg :: "node \<Rightarrow> node option \<Rightarrow> string" where
  "unsupported_msg n parent =
     (case parent of
        Some p \<Rightarrow> ''A child of '' @ ntype p
      | None \<Rightarrow> ''A top-level node'')
     @ '' ('' @ file_or_Jade n @ '':'' @ show_int (line n) @ '')''
     @ '' is of type '' @ ntype n @ '',''
     @ '' which is not supported by jade-source-gen.''"

text \<open>The type strings \<open>t\<close> for which \<open>this['visit' + t]\<close> is defined: the nineteen
  handlers, and \<open>visitPipelessText\<close>, \<open>visitPipelessTextBlock\<close> and \<open>visit\<close> itself.\<close>

definition handled_types :: "string list" where
  "handled_types =
     [''Case'', ''When'', ''NamedBlock'', ''Block'', ''MixinBlock'', ''Doctype'', ''Mixin'', ''Tag'',
      ''Text'', ''Comment'', ''BlockComment'', ''Code'', ''Conditional'', ''While'', ''Each'',
      ''Extends'', ''FileReference'', ''Include'', ''Filter'',
      ''PipelessText'', ''PipelessTextBlock'', []]"

definition has_handler :: "string \<Rightarrow> bool" where
  "has_handler t \<longleftrightarrow> t \<in> set handled_types"

text \<open>The start of \<open>visitPipelessTextBlock\<close>: \<open>if (!++this.indents) this.indents++\<close>
  and \<open>this.bufLine()\<close>.\<close>

definition pipeless_enter :: "compiler \<Rightarrow> compiler" where
  "pipeless_enter s =
     (let s = s \<lparr> indents := indents s + 1 \<rparr>;
          s = (if indents s = 0 then s \<lparr> indents := indents s + 1 \<rparr> else s)
      in bufLine [] 0 s)"

text \<open>The test of \<open>visitCode\<close>, \<open>inline && parentBlock && parentBlock.nodes.length !== 1\<close>,
  after \<open>parentBlock = parent && getBlock(parent)\<close>.\<close>

definition code_in_text :: "bool \<Rightarrow> node option \<Rightarrow> error + bool" where
  "code_in_text inl parent =
     (case (case parent of None \<Rightarrow> Inr None | Some p \<Rightarrow> getBlock p) of
        Inl e \<Rightarrow> Inl e
      | Inr parentBlock \<Rightarrow>
          if \<not> inl then Inr False
          else
            (case parentBlock of
               None \<Rightarrow> Inr False
             | Some pb \<Rightarrow>
                 (case nodes pb of
                    None \<Rightarrow> Inl NativeTypeError
                  | Some ns \<Rightarrow> Inr (length ns \<noteq> 1))))"

text \<open>The stub of a tag (lines 345-359) and the test before its block (lines 373-374, the
  same in \<open>visitMixin\<close>, lines 330-331).\<close>

definition tag_stub :: "const_oracle \<Rightarrow> options \<Rightarrow> string \<Rightarrow> attr list \<Rightarrow> string list \<Rightarrow> bool \<Rightarrow> bool \<Rightarrow> string" where
  "tag_stub tc opts nm as ab sc bf =
     (let atr = attrs tc opts as @ attributeBlocks ab;
          b = (if bf then ''#{'' @ nm @ ''}''
               else if sc \<or> nm \<noteq> ''div'' \<or>
                       (case atr of [] \<Rightarrow> True | c # cs \<Rightarrow> c \<noteq> CHR ''.'' \<and> c \<noteq> CHR ''#'')
               then nm else []);
          b = (if sc then b @ ''/'' else b)
      in b @ atr)"

definition node_inline :: "options \<Rightarrow> node \<Rightarrow> node \<Rightarrow> node list \<Rightarrow> bool" where
  "node_inline opts owner blk ns \<longleftrightarrow> line (hd ns) = line owner \<and> \<not> useColon opts blk (Some owner)"

definition space_before :: "bool \<Rightarrow> node list \<Rightarrow> compiler \<Rightarrow> compiler" where
  "space_before nodeInline ns s =
     (if nodeInline \<and> (ntype (hd ns) \<noteq> ''Code'' \<or> length ns \<noteq> 1) then buffer '' '' s else s)"

text \<open>The output statements of the handlers that run before a child is visited, each
  under the lines of the source it stands for.

  \<open>visitTag\<close>, lines 362-365, and lines 378 and 519:\<close>

definition tag_stub_out :: "bool \<Rightarrow> string \<Rightarrow> compiler \<Rightarrow> compiler" where
  "tag_stub_out inl b s =
     (if inl then
        (let s = (if \<not> nested s then buffer ''#['' s else s)
         in buffer b s)
      else bufLine b 0 s)"

definition close_bracket :: "bool \<Rightarrow> compiler \<Rightarrow> compiler" where
  "close_bracket inl s = (if inl \<and> \<not> nested s then buffer '']'' s else s)"

text \<open>\<open>visitMixin\<close>, lines 320-327.  Line 327 reads \<open>nodeInline\<close> before it is
  assigned: it is \<open>undefined\<close> there, and the statement does nothing.\<close>

definition mixin_call_out :: "bool \<Rightarrow> string \<Rightarrow> compiler \<Rightarrow> compiler" where
  "mixin_call_out inl b s =
     (if inl then
        (let s = (if \<not> nested s then buffer ''#['' s else s);
             s = buffer b s
         in if \<not> nested s then buffer '']'' s else s)
      else bufLine b 0 s)"

text \<open>\<open>visitFilter\<close>, lines 499-502:\<close>

definition filter_stub_out :: "bool \<Rightarrow> string \<Rightarrow> compiler \<Rightarrow> compiler" where
  "filter_stub_out inl b s =
     (let s = (if inl then buffer ''#['' s else s)
      in if inl \<or> nested s then buffer b s else bufLine b 0 s)"

text \<open>\<open>visitCode\<close>: the interpolation token of lines 414-415, and the operator and the
  value of lines 417-438.\<close>

definition code_token :: "bool \<Rightarrow> bool \<Rightarrow> string \<Rightarrow> compiler \<Rightarrow> compiler" where
  "code_token bf es v s =
     (if bf then buffer ((if es then ''#'' else ''!'') @ ''{'' @ v @ ''}'') s
      else buffer (''#[- '' @ v @ '']'') s)"

definition code_out :: "bool \<Rightarrow> bool \<Rightarrow> bool \<Rightarrow> string \<Rightarrow> compiler \<Rightarrow> compiler" where
  "code_out inl bf es v s =
     (let b = (if bf then (if \<not> es then ''!'' else []) @ ''='' else ''-'');
          s = (if inl then buffer b s else bufLine b 0 s)
      in if newline \<notin> set v then buffer ('' '' @ v) s
         else
           (let s = s \<lparr> indents := indents s + 1 \<rparr>;
                s = bufLine [] 0 s;
                s = visitPipelessText v False s
            in s \<lparr> indents := indents s - 1 \<rparr>))"

text \<open>\<open>visitInclude\<close>, lines 487-491:\<close>

definition include_out :: "const_oracle \<Rightarrow> string option \<Rightarrow> attr list \<Rightarrow> compiler \<Rightarrow> compiler" where
  "include_out tc flt as s =
     (let s = bufLine ''include'' 0 s;
          s = (case flt of
                 None \<Rightarrow> s
               | Some x \<Rightarrow> if x \<noteq> [] then buffer ('':'' @ x @ attrs tc (options s) as) s else s)
      in buffer '' '' s)"

text \<open>\<open>visitBlock\<close>, lines 274-278:\<close>

definition dot_out :: "node option \<Rightarrow> compiler \<Rightarrow> compiler" where
  "dot_out parent s =
     (if (case parent of None \<Rightarrow> False | Some p \<Rightarrow> ntype p = ''Tag'' \<or> ntype p = ''Mixin'')
      then buffer ''.'' s else bufLine ''.'' 0 s)"

text \<open>\<open>visitText\<close>, lines 381-393: the error for inline HTML, or the state after the text.\<close>

definition text_out :: "string \<Rightarrow> bool \<Rightarrow> bool \<Rightarrow> compiler \<Rightarrow> result" where
  "text_out v h inl s =
     (if h then
        (if inl then Throw IllegalInlineHtml s
         else Done (visitPipelessText v False (bufLine [] 0 s)))
      else if inl then Done (buffer (escape_interp v) s)
      else if v = [newline] then Done (bufLine ''| '' 0 s)
      else if v \<noteq> [] then Done (bufLine (''| '' @ escape_hash v) 0 s)
      else Done s)"

lemma then_do_cong [fundef_cong]:
  "r = r' \<Longrightarrow> (\<And>s. k s = k' s) \<Longrightarrow> then_do r k = then_do r' k'"
  by (simp add: then_do_def split: result.splits)

text \<open>\<open>visit\<close> and the handlers (lines 210-520).  The handlers that other handlers call
  directly are functions of their own: \<open>visitBlock\<close>, \<open>visitPipelessTextBlock\<close>,
  \<open>visitCode\<close>, \<open>visitConditional\<close> and \<open>visitFilter\<close>; \<open>visitNodes\<close> and
  \<open>visitPipelessNodes\<close> are the \<open>forEach\<close> loops of \<open>visitBlock\<close> and
  \<open>visitPipelessTextBlock\<close>.  Every other handler is reached through the dispatch
  of \<open>visit\<close> only and is the equation of \<open>visit\<close> for its constructor.  For the
  constructors of the data model \<open>this['visit' + node.type]\<close> is defined, so the
  test for it is written out for \<open>Unknown\<close> only.  The statements that write a
  handler's own output are the definitions above.  A handler takes \<open>(node, inline,
  parent)\<close>, \<open>visit\<close> takes \<open>(node, parent, inline)\<close>, as in the source; an argument
  \<open>inline\<close> that is left out is \<open>False\<close>.\<close>

function (sequential)
  visit :: "const_oracle \<Rightarrow> node option \<Rightarrow> node option \<Rightarrow> bool \<Rightarrow> compiler \<Rightarrow> result"
  and visitBlock :: "const_oracle \<Rightarrow> node \<Rightarrow> bool \<Rightarrow> node option \<Rightarrow> compiler \<Rightarrow> result"
  and visitNodes :: "const_oracle \<Rightarrow> node \<Rightarrow> bool \<Rightarrow> node list \<Rightarrow> compiler \<Rightarrow> result"
  and visitPipelessTextBlock :: "const_oracle \<Rightarrow> node \<Rightarrow> bool \<Rightarrow> compiler \<Rightarrow> result"
  and visitPipelessNodes :: "const_oracle \<Rightarrow> node \<Rightarrow> bool \<Rightarrow> node list \<Rightarrow> compiler \<Rightarrow> result"
  and visitCode :: "const_oracle \<Rightarrow> node \<Rightarrow> bool \<Rightarrow> node option \<Rightarrow> compiler \<Rightarrow> result"
  and visitConditional :: "const_oracle \<Rightarrow> node \<Rightarrow> compiler \<Rightarrow> result"
  and visitFilter :: "const_oracle \<Rightarrow> node \<Rightarrow> bool \<Rightarrow> node option \<Rightarrow> compiler \<Rightarrow> result"
where
  "visit tc None parent inl s = Throw (MissingNode (missing_msg parent)) s"
| "visit tc (Some (Unknown l f t)) parent inl s =
     (if \<not> has_handler t then Throw (UnsupportedNodeType (unsupported_msg (Unknown l f t) parent)) s
      else Throw OutsideSchema s)"
| "visit tc (Some (Case l f e blk)) parent inl s =
     (let s = bufLine (''case '' @ e) 0 s
      in visit tc blk (Some (Case l f e blk)) False s)"
| "visit tc (Some (When l f e blk)) parent inl s =
     (let s = bufLine (if e = ''default'' then ''default'' else ''when '' @ e) 0 s
      in case blk of
           None \<Rightarrow> Done s
         | Some b \<Rightarrow>
             (case nodes b of
                None \<Rightarrow> Throw NativeTypeError s
              | Some ns \<Rightarrow>
                  if length ns = 0 then Done (bufLine [] 1 s)
                  else visit tc blk (Some (When l f e blk)) False s))"
| "visit tc (Some (NamedBlock l f nm md y ns)) parent inl s =
     (let s = bufLine (if md = ''replace'' then ''block '' @ nm else md @ '' '' @ nm) 0 s
      in visitBlock tc (NamedBlock l f nm md y ns) False None s)"
| "visit tc (Some (Block l f y ns)) parent inl s = visitBlock tc (Block l f y ns) inl parent s"
| "visit tc (Some (MixinBlock l f)) parent inl s = Done (bufLine ''block'' 0 s)"
| "visit tc (Some (Doctype l f v)) parent inl s =
     Done (bufLine (''doctype'' @ (case v of None \<Rightarrow> [] | Some x \<Rightarrow> if x \<noteq> [] then '' '' @ x else [])) 0 s)"
| "visit tc (Some (Mixin l f nm ar cl as ab blk)) parent inl s =
     (let args = (case ar of None \<Rightarrow> [] | Some a \<Rightarrow> if a \<noteq> [] then ''('' @ a @ '')'' else [])
      in if cl then
           (let b = ''+'' @ nm @ args @ attrs tc (options s) as @ attributeBlocks ab;
                s = mixin_call_out inl b s
            in case blk of
                 None \<Rightarrow> Done s
               | Some bk \<Rightarrow>
                   (case nodes bk of
                      None \<Rightarrow> Throw NativeTypeError s
                    | Some ns \<Rightarrow>
                        if length ns = 0 then Done s
                        else
                          (let nodeInline = node_inline (options s) (Mixin l f nm ar cl as ab blk) bk ns;
                               s = space_before nodeInline ns s
                           in visit tc blk (Some (Mixin l f nm ar cl as ab blk)) nodeInline s)))
         else
           (let s = bufLine (''mixin '' @ nm @ args) 0 s
            in case blk of
                 None \<Rightarrow> Done s
               | Some bk \<Rightarrow> visit tc blk (Some (Mixin l f nm ar cl as ab blk)) False s))"
| "visit tc (Some (Tag l f nm as ab sc bf cd blk)) parent inl s =
     (let b = tag_stub tc (options s) nm as ab sc bf;
          s = tag_stub_out inl b s
      in then_do
           (case cd of None \<Rightarrow> Done s | Some c \<Rightarrow> visitCode tc c True None s)
           (\<lambda>s. then_do
              (case blk of
                 None \<Rightarrow> Throw NativeTypeError s
               | Some bk \<Rightarrow>
                   (case nodes bk of
                      None \<Rightarrow> Throw NativeTypeError s
                    | Some ns \<Rightarrow>
                        if length ns = 0 then Done s
                        else
                          (let nodeInline = node_inline (options s) (Tag l f nm as ab sc bf cd blk) bk ns;
                               s = space_before nodeInline ns s
                           in visit tc blk (Some (Tag l f nm as ab sc bf cd blk)) nodeInline s)))
              (\<lambda>s. Done (close_bracket inl s))))"
| "visit tc (Some (Text l f v h)) parent inl s = text_out v h inl s"
| "visit tc (Some (Comment l f v bf)) parent inl s =
     Done (bufLine (''//'' @ (if \<not> bf then ''-'' else []) @ v) 0 s)"
| "visit tc (Some (BlockComment l f v bf blk)) parent inl s =
     (let s = bufLine (''//'' @ (if \<not> bf then ''-'' else []) @ v) 0 s
      in case blk of
           None \<Rightarrow> Throw NativeTypeError (pipeless_enter s)
         | Some bk \<Rightarrow> visitPipelessTextBlock tc bk False s)"
| "visit tc (Some (Code l f v bf es blk)) parent inl s =
     visitCode tc (Code l f v bf es blk) inl parent s"
| "visit tc (Some (Conditional l f t c a)) parent inl s =
     visitConditional tc (Conditional l f t c a) s"
| "visit tc (Some (While l f t blk)) parent inl s =
     (let s = bufLine (''while '' @ t) 0 s
      in visit tc blk (Some (While l f t blk)) False s)"
| "visit tc (Some (Each l f v k ob blk alt)) parent inl s =
     (let s = bufLine (''each '' @ v @
                 (case k of None \<Rightarrow> [] | Some x \<Rightarrow> if x \<noteq> [] then '', '' @ x else [])
                 @ '' in '' @ ob) 0 s
      in then_do (visit tc blk (Some (Each l f v k ob blk alt)) False s)
           (\<lambda>s. case alt of
                   None \<Rightarrow> Done s
                 | Some a \<Rightarrow> visit tc alt None False (bufLine ''else'' 0 s)))"
| "visit tc (Some (Extends l f fl)) parent inl s =
     (let s = bufLine ''extends '' 0 s
      in visit tc fl None False s)"
| "visit tc (Some (FileReference l f p)) parent inl s = Done (buffer p s)"
| "visit tc (Some (Include l f fl flt as blk)) parent inl s =
     (let s = include_out tc flt as s
      in then_do (visit tc fl None False s) (\<lambda>s. visit tc blk None False s))"
| "visit tc (Some (Filter l f nm as blk)) parent inl s =
     visitFilter tc (Filter l f nm as blk) inl parent s"

| "visitBlock tc blk inl parent s =
     (if yield blk then Done (bufLine ''yield'' 0 s)
      else
        (case nodes blk of
           None \<Rightarrow> Throw NativeTypeError s
         | Some ns \<Rightarrow>
             if useDot blk parent then
               (let s = dot_out parent s
                in visitPipelessTextBlock tc blk False s)
             else if useColon (options s) blk parent then
               (let s1 = buffer '': '' s;
                    originalNested = nested s1;
                    s1 = s1 \<lparr> nested := True \<rparr>
                in then_do
                     (case ns of
                        [] \<Rightarrow> visit tc None (Some blk) True s1
                      | n # rest \<Rightarrow> visit tc (Some n) (Some blk) True s1)
                     (\<lambda>s. Done (s \<lparr> nested := originalNested \<rparr>)))
             else
               (let s = s \<lparr> indents := indents s + 1 \<rparr>
                in then_do (visitNodes tc blk inl ns s)
                     (\<lambda>s. Done (s \<lparr> indents := indents s - 1 \<rparr>)))))"

| "visitNodes tc blk inl [] s = Done s"
| "visitNodes tc blk inl (n # ns) s =
     then_do (visit tc (Some n) (Some blk) inl s)
       (\<lambda>s. visitNodes tc blk (case ns of [] \<Rightarrow> False | m # ms \<Rightarrow> line n = line m) ns s)"

| "visitPipelessTextBlock tc blk noEscape s =
     (let origIndents = indents s;
          s = pipeless_enter s
      in case nodes blk of
           None \<Rightarrow> Throw NativeTypeError s
         | Some ns \<Rightarrow>
             then_do (visitPipelessNodes tc blk noEscape ns s)
               (\<lambda>s. Done (s \<lparr> indents := origIndents \<rparr>)))"

| "visitPipelessNodes tc blk noEscape [] s = Done s"
| "visitPipelessNodes tc blk noEscape (n # ns) s =
     then_do
       (case n of
          Text l f v h \<Rightarrow> Done (visitPipelessText v noEscape s)
        | Code l f v bf es b \<Rightarrow> visit tc (Some n) (Some blk) True s
        | Tag l f nm as ab sc bf cd b \<Rightarrow> visit tc (Some n) (Some blk) True s
        | _ \<Rightarrow> Throw (UnexpectedPipelessChild n) s)
       (\<lambda>s. visitPipelessNodes tc blk noEscape ns s)"

| "visitCode tc (Code l f v bf es blk) inl parent s =
     (case code_in_text inl parent of
        Inl e \<Rightarrow> Throw e s
      | Inr True \<Rightarrow> Done (code_token bf es v s)
      | Inr False \<Rightarrow>
          (let s = code_out inl bf es v s
           in case blk of
                None \<Rightarrow> Done s
              | Some bk \<Rightarrow> visit tc blk (Some (Code l f v bf es blk)) False s))"
| "visitCode tc n inl parent s = Throw OutsideSchema s"

| "visitConditional tc (Conditional l f t c a) s =
     (let s = bufLine (''if '' @ t) 0 s
      in then_do (visit tc c (Some (Conditional l f t c a)) False s)
           (\<lambda>s. case a of
                   None \<Rightarrow> Done s
                 | Some alt \<Rightarrow>
                     if ntype alt = ''Conditional'' then
                       visitConditional tc alt (bufLine ''else '' 0 s)
                     else visit tc a (Some (Conditional l f t c a)) False (bufLine ''else'' 0 s)))"
| "visitConditional tc n s = Throw OutsideSchema s"

| "visitFilter tc (Filter l f nm as blk) inl parent s =
     (let b = '':'' @ nm @ attrs tc (options s) as;
          s = filter_stub_out inl b s
      in case blk of
           None \<Rightarrow> Throw NativeTypeError s
         | Some bk \<Rightarrow>
             (case nodes bk of
                None \<Rightarrow> Throw NativeTypeError s
              | Some ns \<Rightarrow>
                  then_do
                    (case ns of
                       [] \<Rightarrow> Done s
                     | n # rest \<Rightarrow>
                         if ntype n = ''Filter'' then
                           (if length ns > 1 then Throw (InvalidFilterChain (Filter l f nm as blk)) s
                            else
                              (let originalNested = nested s
                               in then_do
                                    (visitFilter tc n inl (Some (Filter l f nm as blk))
                                       (s \<lparr> nested := True \<rparr>))
                                    (\<lambda>s. Done (s \<lparr> nested := originalNested \<rparr>))))
                         else if inl then
                           visit tc blk parent inl (if ntype n = ''Text'' then buffer '' '' s else s)
                         else visitPipelessTextBlock tc bk True s)
                    (\<lambda>s. Done (close_bracket inl s))))"
| "visitFilter tc n inl parent s = Throw OutsideSchema s"
  by pat_completeness auto


lemma nodes_size: "nodes b = Some ns \<Longrightarrow> size_list size ns < size b"
  by (cases b) simp_all

termination visit
  apply (relation "measure (\<lambda>x. case x of
      Inl (Inl (Inl (tc, no, parent, inl, s))) \<Rightarrow> 5 * size_option size no + 3
    | Inl (Inl (Inr (tc, blk, inl, parent, s))) \<Rightarrow> 5 * (size blk + 1) + 2
    | Inl (Inr (Inl (tc, blk, inl, ns, s))) \<Rightarrow> 5 * size_list size ns + 4
    | Inl (Inr (Inr (tc, blk, noEscape, s))) \<Rightarrow> 5 * (size blk + 1) + 1
    | Inr (Inl (Inl (tc, blk, noEscape, ns, s))) \<Rightarrow> 5 * size_list size ns + 4
    | Inr (Inl (Inr (tc, n, inl, parent, s))) \<Rightarrow> 5 * (size n + 1) + 2
    | Inr (Inr (Inl (tc, n, s))) \<Rightarrow> 5 * (size n + 1) + 2
    | Inr (Inr (Inr (tc, n, inl, parent, s))) \<Rightarrow> 5 * (size n + 1) + 2)")
                      apply (auto dest: nodes_size)
  done


section \<open>Normalization\<close>

text \<open>The callback of \<open>cleanUpAST\<close> (lines 545-556) on a \<open>Block\<close>: the \<open>forEach\<close>
  over \<open>node.nodes\<close> with its \<open>lastIdx\<close> and \<open>newNodes\<close>, and the final
  \<open>newNodes.concat(node.nodes.slice(lastIdx))\<close>.  \<open>g\<close> stands for
  \<open>cleanUpAST(innerNode).nodes\<close>; \<open>xs.slice(a, b)\<close> is \<open>take (b - a) (drop a xs)\<close>.\<close>

definition slice :: "'a list \<Rightarrow> nat \<Rightarrow> nat \<Rightarrow> 'a list" where
  "slice xs a b = take (b - a) (drop a xs)"

definition plain_block :: "node \<Rightarrow> bool" where
  "plain_block n \<longleftrightarrow> ntype n = ''Block'' \<and> \<not> yield n"

fun flatten_loop :: "(node \<Rightarrow> node list) \<Rightarrow> node list \<Rightarrow> node list \<Rightarrow> nat \<Rightarrow> nat \<Rightarrow> node list \<Rightarrow> node list" where
  "flatten_loop g all [] i lastIdx newNodes = newNodes @ drop lastIdx all"
| "flatten_loop g all (innerNode # rest) i lastIdx newNodes =
     (if plain_block innerNode then
        (let newNodes = (if i > 0 then newNodes @ slice all lastIdx i else newNodes);
             lastIdx = i + 1;
             newNodes = newNodes @ g innerNode
         in flatten_loop g all rest (i + 1) lastIdx newNodes)
      else flatten_loop g all rest (i + 1) lastIdx newNodes)"

definition flatten_blocks :: "(node \<Rightarrow> node list) \<Rightarrow> node list \<Rightarrow> node list" where
  "flatten_blocks g ns = flatten_loop g ns ns 0 0 []"

definition the_nodes :: "node \<Rightarrow> node list" where
  "the_nodes n = (case nodes n of Some ns \<Rightarrow> ns | None \<Rightarrow> [])"

lemma flatten_loop_eq:
  "all = pre @ rest \<Longrightarrow> length pre = i \<Longrightarrow> lastIdx \<le> i \<Longrightarrow>
   flatten_loop g all rest i lastIdx newNodes =
     newNodes @ drop lastIdx pre @ concat (map (\<lambda>c. if plain_block c then g c else [c]) rest)"
proof (induction rest arbitrary: pre i lastIdx newNodes)
  case Nil
  then show ?case by simp
next
  case (Cons c rest)
  have split: "all = (pre @ [c]) @ rest" "length (pre @ [c]) = i + 1"
    using Cons.prems by simp_all
  show ?case
  proof (cases "plain_block c")
    case True
    have "flatten_loop g all (c # rest) i lastIdx newNodes =
            flatten_loop g all rest (i + 1) (i + 1)
              ((if i > 0 then newNodes @ slice all lastIdx i else newNodes) @ g c)"
      using True by (simp add: Let_def)
    also have "\<dots> = ((if i > 0 then newNodes @ slice all lastIdx i else newNodes) @ g c)
                 @ drop (i + 1) (pre @ [c]) @ concat (map (\<lambda>c. if plain_block c then g c else [c]) rest)"
      by (rule Cons.IH [OF split]) simp
    also have "(if i > 0 then newNodes @ slice all lastIdx i else newNodes) = newNodes @ drop lastIdx pre"
      using Cons.prems by (auto simp: slice_def)
    finally show ?thesis using True Cons.prems by simp
  next
    case False
    have "flatten_loop g all (c # rest) i lastIdx newNodes =
            flatten_loop g all rest (i + 1) lastIdx newNodes"
      using False by simp
    also have "\<dots> = newNodes @ drop lastIdx (pre @ [c])
                 @ concat (map (\<lambda>c. if plain_block c then g c else [c]) rest)"
      by (rule Cons.IH [OF split]) (use Cons.prems in simp)
    finally show ?thesis using False Cons.prems by simp
  qed
qed

lemma flatten_blocks_eq:
  "flatten_blocks g ns = concat (map (\<lambda>c. if plain_block c then g c else [c]) ns)"
  using flatten_loop_eq [of ns "[]" ns 0 0 g "[]"] by (simp add: flatten_blocks_def)

lemma flatten_blocks_cong [fundef_cong]:
  "ns = ns' \<Longrightarrow> (\<And>c. c \<in> set ns' \<Longrightarrow> plain_block c \<Longrightarrow> g c = g' c) \<Longrightarrow>
   flatten_blocks g ns = flatten_blocks g' ns'"
  unfolding flatten_blocks_eq by (auto intro!: arg_cong [where f = concat])

text \<open>\<open>cleanUpAST\<close> (lines 543-558): \<open>walk(ast, callback)\<close>.

  Modelled from the spec: \<open>walk\<close> (package \<open>jade-walk\<close>, not part of the repository),
  the generic tree-rewrite function.  It calls the callback on the node and then walks
  every child of the node as the callback left it, so that the pass reaches every
  \<open>Block\<close> anywhere in the tree; the callback never asks for a replacement, so the
  node walked is the node returned.  The callback rewrites \<open>nodes\<close> of a node of type
  \<open>Block\<close> and leaves every other node as it is.  The equation for \<open>Block\<close> is the
  callback followed by the walk of the new children, the other equations are the
  walk of the children.\<close>

function cleanUpAST :: "node \<Rightarrow> node" where
  "cleanUpAST (Block l f y ns) =
     Block l f y (map cleanUpAST (flatten_blocks (\<lambda>innerNode. the_nodes (cleanUpAST innerNode)) ns))"
| "cleanUpAST (NamedBlock l f nm md y ns) = NamedBlock l f nm md y (map cleanUpAST ns)"
| "cleanUpAST (Tag l f nm as ab sc bf cd blk) =
     Tag l f nm as ab sc bf (map_option cleanUpAST cd) (map_option cleanUpAST blk)"
| "cleanUpAST (Mixin l f nm ar cl as ab blk) = Mixin l f nm ar cl as ab (map_option cleanUpAST blk)"
| "cleanUpAST (MixinBlock l f) = MixinBlock l f"
| "cleanUpAST (Text l f v h) = Text l f v h"
| "cleanUpAST (Code l f v bf es blk) = Code l f v bf es (map_option cleanUpAST blk)"
| "cleanUpAST (Comment l f v bf) = Comment l f v bf"
| "cleanUpAST (BlockComment l f v bf blk) = BlockComment l f v bf (map_option cleanUpAST blk)"
| "cleanUpAST (Case l f e blk) = Case l f e (map_option cleanUpAST blk)"
| "cleanUpAST (When l f e blk) = When l f e (map_option cleanUpAST blk)"
| "cleanUpAST (Conditional l f t c a) =
     Conditional l f t (map_option cleanUpAST c) (map_option cleanUpAST a)"
| "cleanUpAST (While l f t blk) = While l f t (map_option cleanUpAST blk)"
| "cleanUpAST (Each l f v k ob blk alt) =
     Each l f v k ob (map_option cleanUpAST blk) (map_option cleanUpAST alt)"
| "cleanUpAST (Doctype l f v) = Doctype l f v"
| "cleanUpAST (Extends l f fl) = Extends l f (map_option cleanUpAST fl)"
| "cleanUpAST (Include l f fl flt as blk) =
     Include l f (map_option cleanUpAST fl) flt as (map_option cleanUpAST blk)"
| "cleanUpAST (FileReference l f p) = FileReference l f p"
| "cleanUpAST (Filter l f nm as blk) = Filter l f nm as (map_option cleanUpAST blk)"
| "cleanUpAST (Unknown l f t) = Unknown l f t"
  by pat_completeness auto


lemma size_list_fun_le:
  "(\<And>x. x \<in> set xs \<Longrightarrow> h (g x) \<le> h x) \<Longrightarrow> size_list (\<lambda>x. h (g x)) xs \<le> size_list h xs"
  by (induction xs) (simp_all add: add_mono)

lemma size_list_comp_le:
  "(\<And>x. x \<in> set xs \<Longrightarrow> h (g x) \<le> h x) \<Longrightarrow> size_list (h \<circ> g) xs \<le> size_list h xs"
  using size_list_fun_le [of xs h g] by (simp add: comp_def)

lemma size_option_map_le:
  "(\<And>a. x = Some a \<Longrightarrow> h (g a) \<le> h a) \<Longrightarrow> size_option h (map_option g x) \<le> size_option h x"
  by (cases x) auto

lemma size_list_flatten_le:
  "(\<And>c. c \<in> set ns \<Longrightarrow> p c \<Longrightarrow> size_list h (g c) \<le> h c) \<Longrightarrow>
   size_list h (concat (map (\<lambda>c. if p c then g c else [c]) ns)) \<le> size_list h ns"
  by (induction ns) (auto simp: size_list_append le_SucI add_mono)

lemma the_nodes_size: "size_list size (the_nodes n) \<le> size n"
  by (cases n) (simp_all add: the_nodes_def)

lemma cleanUpAST_size: "cleanUpAST_dom t \<Longrightarrow> size (cleanUpAST t) \<le> size t"
proof (induction t rule: cleanUpAST.pinduct)
  case (1 l f y ns)
  let ?g = "\<lambda>c. the_nodes (cleanUpAST c)"
  let ?flat = "flatten_blocks ?g ns"
  have inner: "size_list size (?g c) \<le> size c" if "c \<in> set ns" "plain_block c" for c
  proof -
    have "size (cleanUpAST c) \<le> size c" using 1(2) that by blast
    then show ?thesis using the_nodes_size [of "cleanUpAST c"] by linarith
  qed
  have flat_le: "size_list size ?flat \<le> size_list size ns"
    unfolding flatten_blocks_eq using inner by (rule size_list_flatten_le)
  have outer: "size (cleanUpAST x) \<le> size x" if "x \<in> set ?flat" for x
    using 1(3) that by blast
  have "size_list (size \<circ> cleanUpAST) ?flat \<le> size_list size ?flat"
    using outer by (rule size_list_comp_le)
  then show ?case using flat_le by (simp add: cleanUpAST.psimps(1) [OF 1(1)])
qed (auto simp: cleanUpAST.psimps intro!: size_list_comp_le size_option_map_le add_mono)

lemma flatten_member:
  "x \<in> set (flatten_blocks g ns) \<Longrightarrow>
   x \<in> set ns \<or> (\<exists>c \<in> set ns. plain_block c \<and> x \<in> set (g c))"
  unfolding flatten_blocks_eq by (auto split: if_splits)

lemma size_list_member: "x \<in> set xs \<Longrightarrow> h x < size_list h xs"
  by (induction xs) auto

termination cleanUpAST
proof (relation "measure size", goal_cases)
  case (3 l f y ns x)
  from 3(1) consider "x \<in> set ns" | c where "c \<in> set ns" "plain_block c" "x \<in> set (the_nodes (cleanUpAST c))"
    using flatten_member by blast
  then have "size x < size_list size ns + 1"
  proof cases
    case 1
    then show ?thesis using size_list_member [of x ns size] by simp
  next
    case 2
    have "size x < size_list size (the_nodes (cleanUpAST c))"
      using 2(3) by (rule size_list_member)
    also have "\<dots> \<le> size (cleanUpAST c)" by (rule the_nodes_size)
    also have "\<dots> \<le> size c" using 3(2) 2 by (intro cleanUpAST_size) blast
    also have "\<dots> < size_list size ns" using 2(1) by (rule size_list_member)
    finally show ?thesis by simp
  qed
  then show ?case by simp
qed (auto simp: size_list_member less_Suc_eq)

section \<open>The entry point\<close>

text \<open>The constructor \<open>Compiler\<close> (lines 20-32), \<open>compile\<close> (lines 35-39) and
  \<open>generateCode\<close> (lines 16-18).  The options are the caller's merged with the
  defaults.  \<open>compile\<close> returns the joined lines, or the error thrown.\<close>

definition Compiler :: "node \<Rightarrow> options \<Rightarrow> compiler" where
  "Compiler ast opts =
     \<lparr> options = opts, node = cleanUpAST ast, indents = - 1, nested = False, inline = False,
       buf = [] \<rparr>"

definition compile :: "const_oracle \<Rightarrow> compiler \<Rightarrow> error + string" where
  "compile tc s =
     (case visit tc (Some (node s)) None False (s \<lparr> buf := [] \<rparr>) of
        Done s' \<Rightarrow> Inr (join [newline] (buf s'))
      | Throw e s' \<Rightarrow> Inl e)"

definition generateCode :: "const_oracle \<Rightarrow> node \<Rightarrow> options \<Rightarrow> error + string" where
  "generateCode tc ast opts = compile tc (Compiler ast opts)"

section \<open>The visitor over a store\<close>

text \<open>The handlers of the source receive references to nodes, and a node is an object
  that any holder of a reference can write.  To follow what the visitor does to the
  nodes, the tree is here a store: a reference is the position of a node in the tree,
  the fields and indices that lead to it from the root, and a field of a node is read
  in the store as it is when the statement runs.  A handler returns the store along
  with its result.

  The references a node holds, in the order of its fields: the elements of \<open>nodes\<close>
  for a block, and otherwise \<open>code\<close> and \<open>block\<close> (\<open>Tag\<close>), \<open>consequent\<close> and
  \<open>alternate\<close> (\<open>Conditional\<close>), \<open>block\<close> and \<open>alternative\<close> (\<open>Each\<close>), \<open>file\<close>
  and \<open>block\<close> (\<open>Include\<close>), \<open>file\<close> (\<open>Extends\<close>), or \<open>block\<close> alone.  A field that
  is \<open>undefined\<close> is \<open>None\<close>.\<close>

type_synonym ref = "nat list"

fun refs_of :: "node \<Rightarrow> node option list" where
  "refs_of (Block l f y ns) = map Some ns"
| "refs_of (NamedBlock l f nm md y ns) = map Some ns"
| "refs_of (Tag l f nm as ab sc bf cd blk) = [cd, blk]"
| "refs_of (Mixin l f nm ar cl as ab blk) = [blk]"
| "refs_of (Code l f v bf es blk) = [blk]"
| "refs_of (BlockComment l f v bf blk) = [blk]"
| "refs_of (Case l f e blk) = [blk]"
| "refs_of (When l f e blk) = [blk]"
| "refs_of (Conditional l f t c a) = [c, a]"
| "refs_of (While l f t blk) = [blk]"
| "refs_of (Each l f v k ob blk alt) = [blk, alt]"
| "refs_of (Extends l f fl) = [fl]"
| "refs_of (Include l f fl flt as blk) = [fl, blk]"
| "refs_of (Filter l f nm as blk) = [blk]"
| "refs_of n = []"

text \<open>The node a reference leads to in the store \<open>h\<close>; \<open>None\<close> is \<open>undefined\<close>: a field
  that is not set, or an index past the end of \<open>nodes\<close>.\<close>

fun deref :: "node \<Rightarrow> ref \<Rightarrow> node option" where
  "deref h [] = Some h"
| "deref h (i # p) =
     (if i < length (refs_of h)
      then (case refs_of h ! i of None \<Rightarrow> None | Some c \<Rightarrow> deref c p)
      else None)"

text \<open>An argument that is a reference or \<open>undefined\<close>, like \<open>parent\<close>.\<close>

definition deref_opt :: "node \<Rightarrow> ref option \<Rightarrow> node option" where
  "deref_opt h r = (case r of None \<Rightarrow> None | Some p \<Rightarrow> deref h p)"

text \<open>A handler that ran: its result and the store it leaves; \<open>None\<close> is a run that did
  not end within the number of calls it was given.  \<open>then_doS\<close> is the sequence of
  two statements: the second runs in the store the first one left.\<close>

type_synonym outcome = "(result \<times> node) option"

definition then_doS :: "outcome \<Rightarrow> (compiler \<Rightarrow> node \<Rightarrow> outcome) \<Rightarrow> outcome" where
  "then_doS r k =
     (case r of
        None \<Rightarrow> None
      | Some (Done s, h) \<Rightarrow> k s h
      | Some (Throw e s, h) \<Rightarrow> Some (Throw e s, h))"

text \<open>\<open>prevNode.line === node.line\<close> in the loop of \<open>visitBlock\<close> (line 292).\<close>

definition same_line :: "node option \<Rightarrow> node \<Rightarrow> bool" where
  "same_line prevNode n = (case prevNode of None \<Rightarrow> False | Some q \<Rightarrow> line q = line n)"

text \<open>The handlers call one another through \<open>this\<close>.  \<open>this\<close> is here the record of
  the methods that are called that way, each on the store, a reference to its node and
  its other arguments.\<close>

record methods =
  visitS :: "node \<Rightarrow> ref \<Rightarrow> ref option \<Rightarrow> bool \<Rightarrow> compiler \<Rightarrow> outcome"
  visitBlockS :: "node \<Rightarrow> ref \<Rightarrow> bool \<Rightarrow> ref option \<Rightarrow> compiler \<Rightarrow> outcome"
  visitPipelessTextBlockS :: "node \<Rightarrow> ref \<Rightarrow> bool \<Rightarrow> compiler \<Rightarrow> outcome"
  visitCodeS :: "node \<Rightarrow> ref \<Rightarrow> bool \<Rightarrow> ref option \<Rightarrow> compiler \<Rightarrow> outcome"
  visitConditionalS :: "node \<Rightarrow> ref \<Rightarrow> compiler \<Rightarrow> outcome"
  visitFilterS :: "node \<Rightarrow> ref \<Rightarrow> bool \<Rightarrow> ref option \<Rightarrow> compiler \<Rightarrow> outcome"

text \<open>\<open>visit\<close> and the handlers (lines 210-520) once more, on references.  A handler
  reads the fields of its node when it starts; what the source reads after a call it
  has made is read again, in the store that call left.  \<open>p @ [i]\<close> is the reference in
  field \<open>i\<close> of the node at \<open>p\<close>.  A reference that leads to no node of the handler's
  type is outside the data model.

  The two \<open>forEach\<close> loops go over the indices that \<open>nodes\<close> had when the loop
  started and skip an index that holds nothing.  The loop of \<open>visitBlock\<close> (lines
  290-294) carries \<open>prevNode\<close>:\<close>

fun block_loop :: "methods \<Rightarrow> ref \<Rightarrow> bool \<Rightarrow> ref option \<Rightarrow> nat list \<Rightarrow> compiler \<Rightarrow> node \<Rightarrow> outcome" where
  "block_loop this p inl prevNode [] s h = Some (Done s, h)"
| "block_loop this p inl prevNode (i # rest) s h =
     (case deref h (p @ [i]) of
        None \<Rightarrow> block_loop this p inl prevNode rest s h
      | Some n \<Rightarrow>
          then_doS
            (visitS this h (p @ [i]) (Some p)
               (if i = 0 then inl else same_line (deref_opt h prevNode) n) s)
            (\<lambda>s h. block_loop this p inl (Some (p @ [i])) rest s h))"

text \<open>The loop of \<open>visitPipelessTextBlock\<close> (lines 198-206):\<close>

fun pipeless_loop :: "methods \<Rightarrow> ref \<Rightarrow> bool \<Rightarrow> nat list \<Rightarrow> compiler \<Rightarrow> node \<Rightarrow> outcome" where
  "pipeless_loop this p noEscape [] s h = Some (Done s, h)"
| "pipeless_loop this p noEscape (i # rest) s h =
     (case deref h (p @ [i]) of
        None \<Rightarrow> pipeless_loop this p noEscape rest s h
      | Some n \<Rightarrow>
          then_doS
            (case n of
               Text l f v isHtml \<Rightarrow> Some (Done (visitPipelessText v noEscape s), h)
             | Code l f v bf es b \<Rightarrow> visitS this h (p @ [i]) (Some p) True s
             | Tag l f nm as ab sc bf cd b \<Rightarrow> visitS this h (p @ [i]) (Some p) True s
             | _ \<Rightarrow> Some (Throw (UnexpectedPipelessChild n) s, h))
            (\<lambda>s h. pipeless_loop this p noEscape rest s h))"

text \<open>\<open>visit\<close> (lines 210-236) with the handlers that are reached through its dispatch
  only:\<close>

definition visit_on :: "const_oracle \<Rightarrow> methods \<Rightarrow> node \<Rightarrow> ref \<Rightarrow> ref option \<Rightarrow> bool \<Rightarrow> compiler \<Rightarrow> outcome" where
  "visit_on tc this h p parent inl s =
     (case deref h p of
        None \<Rightarrow> Some (Throw (MissingNode (missing_msg (deref_opt h parent))) s, h)
      | Some n \<Rightarrow>
          (case n of
             Unknown l f t \<Rightarrow>
               Some (if \<not> has_handler t
                     then Throw (UnsupportedNodeType (unsupported_msg n (deref_opt h parent))) s
                     else Throw OutsideSchema s, h)
           | Case l f e blk \<Rightarrow>
               visitS this h (p @ [0]) (Some p) False (bufLine (''case '' @ e) 0 s)
           | When l f e blk \<Rightarrow>
               (let s = bufLine (if e = ''default'' then ''default'' else ''when '' @ e) 0 s
                in case blk of
                     None \<Rightarrow> Some (Done s, h)
                   | Some b \<Rightarrow>
                       (case nodes b of
                          None \<Rightarrow> Some (Throw NativeTypeError s, h)
                        | Some ns \<Rightarrow>
                            if length ns = 0 then Some (Done (bufLine [] 1 s), h)
                            else visitS this h (p @ [0]) (Some p) False s))
           | NamedBlock l f nm md y ns \<Rightarrow>
               visitBlockS this h p False None
                 (bufLine (if md = ''replace'' then ''block '' @ nm else md @ '' '' @ nm) 0 s)
           | Block l f y ns \<Rightarrow> visitBlockS this h p inl parent s
           | MixinBlock l f \<Rightarrow> Some (Done (bufLine ''block'' 0 s), h)
           | Doctype l f v \<Rightarrow>
               Some (Done (bufLine (''doctype'' @
                 (case v of None \<Rightarrow> [] | Some x \<Rightarrow> if x \<noteq> [] then '' '' @ x else [])) 0 s), h)
           | Mixin l f nm ar cl as ab blk \<Rightarrow>
               (let args = (case ar of None \<Rightarrow> [] | Some a \<Rightarrow> if a \<noteq> [] then ''('' @ a @ '')'' else [])
                in if cl then
                     (let b = ''+'' @ nm @ args @ attrs tc (options s) as @ attributeBlocks ab;
                          s = mixin_call_out inl b s
                      in case blk of
                           None \<Rightarrow> Some (Done s, h)
                         | Some bk \<Rightarrow>
                             (case nodes bk of
                                None \<Rightarrow> Some (Throw NativeTypeError s, h)
                              | Some ns \<Rightarrow>
                                  if length ns = 0 then Some (Done s, h)
                                  else
                                    (let nodeInline = node_inline (options s) n bk ns;
                                         s = space_before nodeInline ns s
                                     in visitS this h (p @ [0]) (Some p) nodeInline s)))
                   else
                     (let s = bufLine (''mixin '' @ nm @ args) 0 s
                      in case blk of
                           None \<Rightarrow> Some (Done s, h)
                         | Some bk \<Rightarrow> visitS this h (p @ [0]) (Some p) False s))
           | Tag l f nm as ab sc bf cd blk \<Rightarrow>
               (let b = tag_stub tc (options s) nm as ab sc bf;
                    s = tag_stub_out inl b s
                in then_doS
                     (case cd of
                        None \<Rightarrow> Some (Done s, h)
                      | Some c \<Rightarrow> visitCodeS this h (p @ [0]) True None s)
                     (\<lambda>s h. then_doS
                        (case deref h p of
                           None \<Rightarrow> Some (Throw OutsideSchema s, h)
                         | Some tag \<Rightarrow>
                             (case block tag of
                                None \<Rightarrow> Some (Throw NativeTypeError s, h)
                              | Some bk \<Rightarrow>
                                  (case nodes bk of
                                     None \<Rightarrow> Some (Throw NativeTypeError s, h)
                                   | Some ns \<Rightarrow>
                                       if length ns = 0 then Some (Done s, h)
                                       else
                                         (let nodeInline = node_inline (options s) tag bk ns;
                                              s = space_before nodeInline ns s
                                          in visitS this h (p @ [1]) (Some p) nodeInline s))))
                        (\<lambda>s h. Some (Done (close_bracket inl s), h))))
           | Text l f v isHtml \<Rightarrow> Some (text_out v isHtml inl s, h)
           | Comment l f v bf \<Rightarrow>
               Some (Done (bufLine (''//'' @ (if \<not> bf then ''-'' else []) @ v) 0 s), h)
           | BlockComment l f v bf blk \<Rightarrow>
               visitPipelessTextBlockS this h (p @ [0]) False
                 (bufLine (''//'' @ (if \<not> bf then ''-'' else []) @ v) 0 s)
           | Code l f v bf es blk \<Rightarrow> visitCodeS this h p inl parent s
           | Conditional l f t c a \<Rightarrow> visitConditionalS this h p s
           | While l f t blk \<Rightarrow>
               visitS this h (p @ [0]) (Some p) False (bufLine (''while '' @ t) 0 s)
           | Each l f v ky ob blk alt \<Rightarrow>
               (let s = bufLine (''each '' @ v @
                           (case ky of None \<Rightarrow> [] | Some x \<Rightarrow> if x \<noteq> [] then '', '' @ x else [])
                           @ '' in '' @ ob) 0 s
                in then_doS (visitS this h (p @ [0]) (Some p) False s)
                     (\<lambda>s h. case deref h (p @ [1]) of
                               None \<Rightarrow> Some (Done s, h)
                             | Some a \<Rightarrow> visitS this h (p @ [1]) None False (bufLine ''else'' 0 s)))
           | Extends l f fl \<Rightarrow> visitS this h (p @ [0]) None False (bufLine ''extends '' 0 s)
           | FileReference l f pth \<Rightarrow> Some (Done (buffer pth s), h)
           | Include l f fl flt as blk \<Rightarrow>
               then_doS (visitS this h (p @ [0]) None False (include_out tc flt as s))
                 (\<lambda>s h. visitS this h (p @ [1]) None False s)
           | Filter l f nm as blk \<Rightarrow> visitFilterS this h p inl parent s))"

text \<open>\<open>visitBlock\<close> (lines 267-296):\<close>

definition visitBlock_on :: "methods \<Rightarrow> node \<Rightarrow> ref \<Rightarrow> bool \<Rightarrow> ref option \<Rightarrow> compiler \<Rightarrow> outcome" where
  "visitBlock_on this h p inl parent s =
     (case deref h p of
        None \<Rightarrow> Some (Throw OutsideSchema s, h)
      | Some blk \<Rightarrow>
          if yield blk then Some (Done (bufLine ''yield'' 0 s), h)
          else
            (case nodes blk of
               None \<Rightarrow> Some (Throw NativeTypeError s, h)
             | Some ns \<Rightarrow>
                 if useDot blk (deref_opt h parent) then
                   visitPipelessTextBlockS this h p False (dot_out (deref_opt h parent) s)
                 else if useColon (options s) blk (deref_opt h parent) then
                   (let s1 = buffer '': '' s;
                        originalNested = nested s1;
                        s1 = s1 \<lparr> nested := True \<rparr>
                    in then_doS (visitS this h (p @ [0]) (Some p) True s1)
                         (\<lambda>s h. Some (Done (s \<lparr> nested := originalNested \<rparr>), h)))
                 else
                   (let s = s \<lparr> indents := indents s + 1 \<rparr>
                    in then_doS (block_loop this p inl parent [0..<length ns] s h)
                         (\<lambda>s h. Some (Done (s \<lparr> indents := indents s - 1 \<rparr>), h)))))"

text \<open>\<open>visitPipelessTextBlock\<close> (lines 194-208):\<close>

definition visitPipelessTextBlock_on :: "methods \<Rightarrow> node \<Rightarrow> ref \<Rightarrow> bool \<Rightarrow> compiler \<Rightarrow> outcome" where
  "visitPipelessTextBlock_on this h p noEscape s =
     (let origIndents = indents s;
          s = pipeless_enter s
      in case deref h p of
           None \<Rightarrow> Some (Throw NativeTypeError s, h)
         | Some blk \<Rightarrow>
             (case nodes blk of
                None \<Rightarrow> Some (Throw NativeTypeError s, h)
              | Some ns \<Rightarrow>
                  then_doS (pipeless_loop this p noEscape [0..<length ns] s h)
                    (\<lambda>s h. Some (Done (s \<lparr> indents := origIndents \<rparr>), h))))"

text \<open>\<open>visitCode\<close> (lines 411-443):\<close>

definition visitCode_on :: "methods \<Rightarrow> node \<Rightarrow> ref \<Rightarrow> bool \<Rightarrow> ref option \<Rightarrow> compiler \<Rightarrow> outcome" where
  "visitCode_on this h p inl parent s =
     (case deref h p of
        Some (Code l f v bf es blk) \<Rightarrow>
          (case code_in_text inl (deref_opt h parent) of
             Inl e \<Rightarrow> Some (Throw e s, h)
           | Inr True \<Rightarrow> Some (Done (code_token bf es v s), h)
           | Inr False \<Rightarrow>
               (let s = code_out inl bf es v s
                in case blk of
                     None \<Rightarrow> Some (Done s, h)
                   | Some bk \<Rightarrow> visitS this h (p @ [0]) (Some p) False s))
      | _ \<Rightarrow> Some (Throw OutsideSchema s, h))"

text \<open>\<open>visitConditional\<close> (lines 445-460):\<close>

definition visitConditional_on :: "methods \<Rightarrow> node \<Rightarrow> ref \<Rightarrow> compiler \<Rightarrow> outcome" where
  "visitConditional_on this h p s =
     (case deref h p of
        Some (Conditional l f t c a) \<Rightarrow>
          then_doS (visitS this h (p @ [0]) (Some p) False (bufLine (''if '' @ t) 0 s))
            (\<lambda>s h. case deref h (p @ [1]) of
                      None \<Rightarrow> Some (Done s, h)
                    | Some alt \<Rightarrow>
                        if ntype alt = ''Conditional'' then
                          visitConditionalS this h (p @ [1]) (bufLine ''else '' 0 s)
                        else visitS this h (p @ [1]) (Some p) False (bufLine ''else'' 0 s))
      | _ \<Rightarrow> Some (Throw OutsideSchema s, h))"

text \<open>\<open>visitFilter\<close> (lines 496-520):\<close>

definition visitFilter_on :: "const_oracle \<Rightarrow> methods \<Rightarrow> node \<Rightarrow> ref \<Rightarrow> bool \<Rightarrow> ref option \<Rightarrow> compiler \<Rightarrow> outcome" where
  "visitFilter_on tc this h p inl parent s =
     (case deref h p of
        Some (Filter l f nm as blk) \<Rightarrow>
          (let b = '':'' @ nm @ attrs tc (options s) as;
               s = filter_stub_out inl b s
           in case blk of
                None \<Rightarrow> Some (Throw NativeTypeError s, h)
              | Some bk \<Rightarrow>
                  (case nodes bk of
                     None \<Rightarrow> Some (Throw NativeTypeError s, h)
                   | Some ns \<Rightarrow>
                       then_doS
                         (case ns of
                            [] \<Rightarrow> Some (Done s, h)
                          | n # rest \<Rightarrow>
                              if ntype n = ''Filter'' then
                                (if length ns > 1
                                 then Some (Throw (InvalidFilterChain (Filter l f nm as blk)) s, h)
                                 else
                                   (let originalNested = nested s
                                    in then_doS
                                         (visitFilterS this h (p @ [0, 0]) inl (Some p)
                                            (s \<lparr> nested := True \<rparr>))
                                         (\<lambda>s h. Some (Done (s \<lparr> nested := originalNested \<rparr>), h))))
                              else if inl then
                                visitS this h (p @ [0]) parent inl
                                  (if ntype n = ''Text'' then buffer '' '' s else s)
                              else visitPipelessTextBlockS this h (p @ [0]) True s)
                         (\<lambda>s h. Some (Done (close_bracket inl s), h))))
      | _ \<Rightarrow> Some (Throw OutsideSchema s, h))"

text \<open>The methods when calls may nest \<open>k\<close> deep: with no call left a handler does not
  end; otherwise its calls go to the methods with one call less.\<close>

primrec generator :: "const_oracle \<Rightarrow> nat \<Rightarrow> methods" where
  "generator tc 0 =
     \<lparr> visitS = (\<lambda>h p parent inl s. None),
       visitBlockS = (\<lambda>h p inl parent s. None),
       visitPipelessTextBlockS = (\<lambda>h p noEscape s. None),
       visitCodeS = (\<lambda>h p inl parent s. None),
       visitConditionalS = (\<lambda>h p s. None),
       visitFilterS = (\<lambda>h p inl parent s. None) \<rparr>"
| "generator tc (Suc k) =
     \<lparr> visitS = visit_on tc (generator tc k),
       visitBlockS = visitBlock_on (generator tc k),
       visitPipelessTextBlockS = visitPipelessTextBlock_on (generator tc k),
       visitCodeS = visitCode_on (generator tc k),
       visitConditionalS = visitConditional_on (generator tc k),
       visitFilterS = visitFilter_on tc (generator tc k) \<rparr>"

text \<open>\<open>compile\<close> (lines 35-39) on the store: the tree of the compiler is the store, and
  \<open>this.node\<close> is the reference to its root.\<close>

definition compileS :: "nat \<Rightarrow> const_oracle \<Rightarrow> compiler \<Rightarrow> ((error + string) \<times> node) option" where
  "compileS k tc s =
     (case visitS (generator tc k) (node s) [] None False (s \<lparr> buf := [] \<rparr>) of
        None \<Rightarrow> None
      | Some (Done s', h) \<Rightarrow> Some (Inr (join [newline] (buf s')), h)
      | Some (Throw e s', h) \<Rightarrow> Some (Inl e, h))"

section \<open>Definitions for the properties\<close>

text \<open>The notions the theorems below are stated with, and the trees of their
  examples, grouped by the property they serve.\<close>

subsection \<open>Quote selection\<close>

text \<open>The spec's wording of the escaped form: every occurrence of the quote character
  \<open>q\<close> in the value is preceded by a backslash, every other character is kept.\<close>

primrec backslash_escaped :: "char \<Rightarrow> string \<Rightarrow> string" where
  "backslash_escaped q [] = []"
| "backslash_escaped q (c # cs) =
     (if c = q then backslash # q # backslash_escaped q cs else c # backslash_escaped q cs)"

definition other_quote :: "char \<Rightarrow> char" where
  "other_quote q = (if q = squote then dquote else squote)"

subsection \<open>Normalization is idempotent\<close>

text \<open>No \<open>Block\<close> node anywhere in the tree has a child that is a \<open>Block\<close> other
  than a \<open>yield\<close> placeholder.\<close>

fun no_nested_block :: "node \<Rightarrow> bool" where
  "no_nested_block (Block l f y ns) =
     (list_all (\<lambda>c. \<not> plain_block c) ns \<and> list_all no_nested_block ns)"
| "no_nested_block (NamedBlock l f nm md y ns) = list_all no_nested_block ns"
| "no_nested_block (Tag l f nm as ab sc bf cd blk) =
     (case_option True no_nested_block cd \<and> case_option True no_nested_block blk)"
| "no_nested_block (Mixin l f nm ar cl as ab blk) = case_option True no_nested_block blk"
| "no_nested_block (Code l f v bf es blk) = case_option True no_nested_block blk"
| "no_nested_block (BlockComment l f v bf blk) = case_option True no_nested_block blk"
| "no_nested_block (Case l f e blk) = case_option True no_nested_block blk"
| "no_nested_block (When l f e blk) = case_option True no_nested_block blk"
| "no_nested_block (Conditional l f t c a) =
     (case_option True no_nested_block c \<and> case_option True no_nested_block a)"
| "no_nested_block (While l f t blk) = case_option True no_nested_block blk"
| "no_nested_block (Each l f v k ob blk alt) =
     (case_option True no_nested_block blk \<and> case_option True no_nested_block alt)"
| "no_nested_block (Extends l f fl) = case_option True no_nested_block fl"
| "no_nested_block (Include l f fl flt as blk) =
     (case_option True no_nested_block fl \<and> case_option True no_nested_block blk)"
| "no_nested_block (Filter l f nm as blk) = case_option True no_nested_block blk"
| "no_nested_block n = True"

subsection \<open>The order of the attribute shorthands\<close>

text \<open>An attribute qualifies for the class shorthand, or for the id shorthand, when it
  has that name, is unescaped, and its value folds to a truthy constant that matches
  the pattern.\<close>

definition class_shorthand :: "const_oracle \<Rightarrow> attr \<Rightarrow> bool" where
  "class_shorthand tc a \<longleftrightarrow>
     attr_name a = ''class'' \<and> \<not> attr_escaped a \<and> truthy (const_val tc a) \<and>
     class_pattern (to_string (const_val tc a))"

definition id_shorthand :: "const_oracle \<Rightarrow> attr \<Rightarrow> bool" where
  "id_shorthand tc a \<longleftrightarrow>
     attr_name a = ''id'' \<and> \<not> attr_escaped a \<and> truthy (const_val tc a) \<and>
     id_pattern (to_string (const_val tc a))"

definition id_set :: "attrs_acc \<Rightarrow> bool" where
  "id_set acc = (case id_val acc of None \<Rightarrow> False | Some v \<Rightarrow> truthy v)"

definition class_text :: "const_oracle \<Rightarrow> attr list \<Rightarrow> string" where
  "class_text tc as = concat (map (\<lambda>a. ''.'' @ to_string (const_val tc a)) (filter (class_shorthand tc) as))"

definition others_text :: "const_oracle \<Rightarrow> options \<Rightarrow> attr list \<Rightarrow> string list" where
  "others_text tc opts as = map (attr_out tc opts) (filter (\<lambda>a. \<not> class_shorthand tc a) as)"

text \<open>Two orders of the same four attributes, with an oracle that folds the two
  string literals: the shorthands come out in the same place, the other two
  attributes in their input order.\<close>

definition literal_oracle :: const_oracle where
  "literal_oracle src =
     (if src = [squote] @ ''box'' @ [squote] then Some (JString ''box'')
      else if src = [squote] @ ''big'' @ [squote] then Some (JString ''big'')
      else None)"

definition attr_id_box :: attr where
  "attr_id_box = \<lparr> attr_name = ''id'', attr_val = [squote] @ ''box'' @ [squote], attr_escaped = False \<rparr>"

definition attr_class_big :: attr where
  "attr_class_big = \<lparr> attr_name = ''class'', attr_val = [squote] @ ''big'' @ [squote], attr_escaped = False \<rparr>"

definition attr_title :: attr where
  "attr_title = \<lparr> attr_name = ''title'', attr_val = ''t'', attr_escaped = True \<rparr>"

definition attr_href :: attr where
  "attr_href = \<lparr> attr_name = ''href'', attr_val = ''h'', attr_escaped = False \<rparr>"

subsection \<open>The dot-block heuristic\<close>

text \<open>The children that do not disqualify the dot form: a \<open>Text\<close>, or a \<open>Code\<close> that
  is buffered and has no block.\<close>

fun dot_child :: "node \<Rightarrow> bool" where
  "dot_child (Text l f v h) = True"
| "dot_child (Code l f v bf es blk) = (bf \<and> blk = None)"
| "dot_child n = False"

text \<open>The word count, stated on the text itself.  A word character is a letter, a digit
  or the underscore, given here by its code; white space is the range from tab to
  carriage return, the space and the no-break space.\<close>

definition word_char :: "char \<Rightarrow> bool" where
  "word_char c \<longleftrightarrow>
     (let k = (of_char c :: nat)
      in (97 \<le> k \<and> k \<le> 122) \<or> (65 \<le> k \<and> k \<le> 90) \<or> (48 \<le> k \<and> k \<le> 57) \<or> k = 95)"

definition space_char :: "char \<Rightarrow> bool" where
  "space_char c \<longleftrightarrow> (let k = (of_char c :: nat) in (9 \<le> k \<and> k \<le> 13) \<or> k = 32 \<or> k = 160)"

text \<open>\<open>/\w+(\s+|$)/g\<close> finds, from left to right and without overlap, a run of word
  characters that is followed by white space or ends the text.  A run that is cut
  short is followed by a word character, so only a whole run matches, and the white
  space a match takes in belongs to no run: there is one match for every position that
  holds a word character and is the last of the text or has white space after it.\<close>

definition word_end :: "string \<Rightarrow> nat \<Rightarrow> bool" where
  "word_end v i \<longleftrightarrow> word_char (v ! i) \<and> (Suc i = length v \<or> space_char (v ! Suc i))"

definition words_of :: "string \<Rightarrow> nat" where
  "words_of v = length (filter (word_end v) [0..<length v])"

text \<open>The word count of the \<open>Text\<close> children.\<close>

fun text_words :: "node \<Rightarrow> nat" where
  "text_words (Text l f v h) = words_of v"
| "text_words n = 0"

definition word_total :: "node list \<Rightarrow> nat" where
  "word_total ns = sum_list (map text_words ns)"

text \<open>The node before the child at position \<open>i\<close>: the sibling before it, and for the
  first child the parent, if there is one.\<close>

definition node_before :: "node option \<Rightarrow> node list \<Rightarrow> nat \<Rightarrow> node option" where
  "node_before parent ns i = (if i = 0 then parent else Some (ns ! (i - 1)))"

text \<open>A child begins a line when its line is after the line of the node before it
  (after line \<open>-1\<close> when there is none), or when that node is a text that is a
  single line feed.\<close>

fun line_feed_text :: "node \<Rightarrow> bool" where
  "line_feed_text (Text l f v h) = (v = [CHR 0x0A])"
| "line_feed_text n = False"

definition begins_line :: "node option \<Rightarrow> node list \<Rightarrow> nat \<Rightarrow> bool" where
  "begins_line parent ns i \<longleftrightarrow>
     (case node_before parent ns i of
        None \<Rightarrow> - 1 < line (ns ! i)
      | Some p \<Rightarrow> line p < line (ns ! i) \<or> line_feed_text p)"

text \<open>A \<open>Code\<close> child on a line of its own: it produces output and carries no block,
  it begins a line, and the child before it began a line as well.  The first child
  has no child before it and never counts.\<close>

fun output_code :: "node \<Rightarrow> bool" where
  "output_code (Code l f v bf es blk) = (bf \<and> blk = None)"
| "output_code n = False"

definition own_line_code :: "node option \<Rightarrow> node list \<Rightarrow> nat \<Rightarrow> bool" where
  "own_line_code parent ns i \<longleftrightarrow>
     output_code (ns ! i) \<and> 0 < i \<and> begins_line parent ns i \<and> begins_line parent ns (i - 1)"

definition own_line_codes :: "node option \<Rightarrow> node list \<Rightarrow> nat" where
  "own_line_codes parent ns = length (filter (own_line_code parent ns) [0..<length ns])"

text \<open>The line span of the children: from the line of the first to the line of the
  last, both included.\<close>

definition line_span :: "node list \<Rightarrow> int" where
  "line_span ns = line (last ns) - line (hd ns) + 1"

text \<open>The same count for a loop that is under way: \<open>prevStart\<close> says whether the node
  before the first of the remaining children began a line.\<close>

definition own_line_from :: "node option \<Rightarrow> bool \<Rightarrow> node list \<Rightarrow> nat \<Rightarrow> bool" where
  "own_line_from prev prevStart ns i \<longleftrightarrow>
     output_code (ns ! i) \<and> begins_line prev ns i \<and>
     (if i = 0 then prevStart else begins_line prev ns (i - 1))"

text \<open>The boundary: ten words, with seven own-line codes over twenty lines (a quotient
  of exactly 35/100) the dot form is rejected; with seventeen over fifty (34/100) it is
  chosen.\<close>

definition code_at :: "nat \<Rightarrow> node" where
  "code_at k = Code (int k) None ''x'' True True None"

definition ten_words :: string where
  "ten_words = ''one two three four five six seven eight nine ten''"

definition block_7_of_20 :: node where
  "block_7_of_20 = Block 1 None False
     ([Text 1 None ten_words False] @ map code_at [2..<9] @ [Text 20 None ''.'' False])"

definition block_17_of_50 :: node where
  "block_17_of_50 = Block 1 None False
     ([Text 1 None ten_words False] @ map code_at [2..<19] @ [Text 50 None ''.'' False])"

text \<open>A code on the line of the text before it is not on a line of its own: with four
  words and no own-line code over two lines the dot form is chosen.\<close>

definition block_code_in_line :: node where
  "block_code_in_line = Block 1 None False
     [Text 1 None ''a b c'' False, Code 1 None ''x'' True True None, Text 2 None ''d'' False]"

subsection \<open>A node of an unsupported type\<close>

text \<open>The errors that are a JavaScript \<open>TypeError\<close>.\<close>

fun is_TypeError :: "error \<Rightarrow> bool" where
  "is_TypeError (MissingNode m) = True"
| "is_TypeError (UnsupportedNodeType m) = True"
| "is_TypeError NativeTypeError = True"
| "is_TypeError e = False"

text \<open>The location of a node as a message prints it: the file name or \<open>Jade\<close>, a
  colon, the line.\<close>

definition location :: "node \<Rightarrow> string" where
  "location n = file_or_Jade n @ '':'' @ show_int (line n)"

definition unknown_at_7 :: node where
  "unknown_at_7 = Unknown 7 None ''Unknown''"

definition parent_at_3 :: node where
  "parent_at_3 = Block 3 (Some ''a.jade'') False [unknown_at_7]"

definition no_constants :: const_oracle where
  "no_constants src = None"

definition fresh_compiler :: compiler where
  "fresh_compiler = Compiler (Block 0 None False []) defaultOptions"

subsection \<open>Two scenarios\<close>

text \<open>The tag of the scenario, \<open>Tag{name:'div', attrs:[{name:'id', val:'"box"',
  escaped}], block:{nodes:[{type:'Text', val:'Hi'}]}}\<close>.  The fields the scenario
  leaves out are absent (no attribute blocks, not self-closing, no code); tag, block
  and text carry the same line, as they do when \<open>line\<close> is left out of all three.\<close>

definition quoted_box :: string where
  "quoted_box = [dquote] @ ''box'' @ [dquote]"

definition box_tag :: "bool \<Rightarrow> node" where
  "box_tag escaped =
     Tag 1 None ''div'' [\<lparr> attr_name = ''id'', attr_val = quoted_box, attr_escaped = escaped \<rparr>]
       [] False False None (Some (Block 1 None False [Text 1 None ''Hi'' False]))"

definition box_oracle :: const_oracle where
  "box_oracle src = (if src = quoted_box then Some (JString ''box'') else None)"

text \<open>The conditional of the scenario: test \<open>x\<close>, an empty consequent, and as alternate
  a conditional with test \<open>y\<close>, an empty consequent and no alternate.\<close>

definition cond_xy :: node where
  "cond_xy = Conditional 1 None ''x'' (Some (Block 1 None False []))
      (Some (Conditional 2 None ''y'' (Some (Block 2 None False [])) None))"

subsection \<open>What a visit leaves unchanged\<close>

text \<open>The fields of the compiler other than the output: the indentation depth, the
  \<open>nested\<close> flag, the tree and the options.\<close>

datatype frame = Frame int bool node options

definition frame_of :: "compiler \<Rightarrow> frame" where
  "frame_of s = Frame (indents s) (nested s) (node s) (options s)"

fun tree_of :: "frame \<Rightarrow> node \<times> options" where
  "tree_of (Frame i n t opts) = (t, opts)"

text \<open>A filter whose block is malformed: the first child of the block is a \<open>Filter\<close>
  and the block has more than one node.\<close>

definition malformed_chain :: "node \<Rightarrow> bool" where
  "malformed_chain n =
     (case block n of
        None \<Rightarrow> False
      | Some bk \<Rightarrow>
          (case nodes bk of
             Some (c # d # rest) \<Rightarrow> ntype c = ''Filter''
           | _ \<Rightarrow> False))"

text \<open>The nodes of a tree: the node itself and the nodes of the trees under it.\<close>

primrec subnodes :: "node \<Rightarrow> node set" where
  "subnodes (Block l f y ns) = insert (Block l f y ns) (\<Union> (set (map subnodes ns)))"
| "subnodes (NamedBlock l f nm md y ns) =
     insert (NamedBlock l f nm md y ns) (\<Union> (set (map subnodes ns)))"
| "subnodes (Tag l f nm as ab sc bf cd blk) =
     insert (Tag l f nm as ab sc bf cd blk)
       (\<Union> (set_option (map_option subnodes cd)) \<union> \<Union> (set_option (map_option subnodes blk)))"
| "subnodes (Mixin l f nm ar cl as ab blk) =
     insert (Mixin l f nm ar cl as ab blk) (\<Union> (set_option (map_option subnodes blk)))"
| "subnodes (MixinBlock l f) = {MixinBlock l f}"
| "subnodes (Text l f v h) = {Text l f v h}"
| "subnodes (Code l f v bf es blk) =
     insert (Code l f v bf es blk) (\<Union> (set_option (map_option subnodes blk)))"
| "subnodes (Comment l f v bf) = {Comment l f v bf}"
| "subnodes (BlockComment l f v bf blk) =
     insert (BlockComment l f v bf blk) (\<Union> (set_option (map_option subnodes blk)))"
| "subnodes (Case l f e blk) = insert (Case l f e blk) (\<Union> (set_option (map_option subnodes blk)))"
| "subnodes (When l f e blk) = insert (When l f e blk) (\<Union> (set_option (map_option subnodes blk)))"
| "subnodes (Conditional l f t c a) =
     insert (Conditional l f t c a)
       (\<Union> (set_option (map_option subnodes c)) \<union> \<Union> (set_option (map_option subnodes a)))"
| "subnodes (While l f t blk) = insert (While l f t blk) (\<Union> (set_option (map_option subnodes blk)))"
| "subnodes (Each l f v k ob blk alt) =
     insert (Each l f v k ob blk alt)
       (\<Union> (set_option (map_option subnodes blk)) \<union> \<Union> (set_option (map_option subnodes alt)))"
| "subnodes (Doctype l f v) = {Doctype l f v}"
| "subnodes (Extends l f fl) = insert (Extends l f fl) (\<Union> (set_option (map_option subnodes fl)))"
| "subnodes (Include l f fl flt as blk) =
     insert (Include l f fl flt as blk)
       (\<Union> (set_option (map_option subnodes fl)) \<union> \<Union> (set_option (map_option subnodes blk)))"
| "subnodes (FileReference l f p) = {FileReference l f p}"
| "subnodes (Filter l f nm as blk) =
     insert (Filter l f nm as blk) (\<Union> (set_option (map_option subnodes blk)))"
| "subnodes (Unknown l f t) = {Unknown l f t}"

text \<open>A call that returns has restored \<open>indents\<close> and \<open>nested\<close>; returning or throwing,
  it has not touched \<open>node\<close> (the tree) or \<open>options\<close>; and an \<open>InvalidFilterChain\<close>
  it throws names a filter that is among \<open>among\<close> and whose block is malformed.\<close>

definition keeps :: "node set \<Rightarrow> frame \<Rightarrow> result \<Rightarrow> bool" where
  "keeps among fr r =
     (case r of
        Done s' \<Rightarrow> frame_of s' = fr
      | Throw e s' \<Rightarrow>
          tree_of (frame_of s') = tree_of fr \<and>
          (case e of InvalidFilterChain g \<Rightarrow> g \<in> among \<and> malformed_chain g | _ \<Rightarrow> True))"

subsection \<open>The indentation depth is restored\<close>

text \<open>A tag at depth 3 with a block of two children on lines of their own, the second
  a code node with a two-line value: the block and the code each step in and out, and
  the depth is 3 again at the end.\<close>

definition deep_tag :: node where
  "deep_tag = Tag 1 None ''ul'' [] [] False False None
     (Some (Block 1 None False
        [Tag 2 None ''li'' [] [] False False None (Some (Block 2 None False [])),
         Code 3 None (''a'' @ [newline] @ ''b'') False False None]))"

definition at_depth_3 :: compiler where
  "at_depth_3 = (Compiler deep_tag defaultOptions) \<lparr> indents := 3, buf := [''''] \<rparr>"

subsection \<open>The visitor leaves the tree alone\<close>

text \<open>A run that ended left the store \<open>h\<close>.\<close>

definition leaves :: "node \<Rightarrow> outcome \<Rightarrow> bool" where
  "leaves h r = (case r of None \<Rightarrow> True | Some (x, h') \<Rightarrow> h' = h)"

text \<open>Every method of \<open>this\<close> leaves the store it is given.\<close>

definition read_only :: "methods \<Rightarrow> bool" where
  "read_only this \<longleftrightarrow>
     (\<forall>h p parent inl s. leaves h (visitS this h p parent inl s)) \<and>
     (\<forall>h p inl parent s. leaves h (visitBlockS this h p inl parent s)) \<and>
     (\<forall>h p noEscape s. leaves h (visitPipelessTextBlockS this h p noEscape s)) \<and>
     (\<forall>h p inl parent s. leaves h (visitCodeS this h p inl parent s)) \<and>
     (\<forall>h p s. leaves h (visitConditionalS this h p s)) \<and>
     (\<forall>h p inl parent s. leaves h (visitFilterS this h p inl parent s))"

text \<open>A run that ended left the store \<open>h\<close> and gave the result \<open>x\<close>.\<close>

definition agrees :: "node \<Rightarrow> outcome \<Rightarrow> result \<Rightarrow> bool" where
  "agrees h r x = (case r of None \<Rightarrow> True | Some (y, h') \<Rightarrow> y = x \<and> h' = h)"

text \<open>Every method of \<open>this\<close>, when it ends, ends as the handler does on the node that
  its reference leads to.\<close>

definition faithful :: "const_oracle \<Rightarrow> methods \<Rightarrow> bool" where
  "faithful tc this \<longleftrightarrow>
     (\<forall>h p parent inl s.
        agrees h (visitS this h p parent inl s) (visit tc (deref h p) (deref_opt h parent) inl s)) \<and>
     (\<forall>h p inl parent s blk. deref h p = Some blk \<longrightarrow>
        agrees h (visitBlockS this h p inl parent s) (visitBlock tc blk inl (deref_opt h parent) s)) \<and>
     (\<forall>h p noEscape s blk. deref h p = Some blk \<longrightarrow>
        agrees h (visitPipelessTextBlockS this h p noEscape s)
          (visitPipelessTextBlock tc blk noEscape s)) \<and>
     (\<forall>h p noEscape s. deref h p = None \<longrightarrow>
        agrees h (visitPipelessTextBlockS this h p noEscape s)
          (Throw NativeTypeError (pipeless_enter s))) \<and>
     (\<forall>h p inl parent s n. deref h p = Some n \<longrightarrow>
        agrees h (visitCodeS this h p inl parent s) (visitCode tc n inl (deref_opt h parent) s)) \<and>
     (\<forall>h p s n. deref h p = Some n \<longrightarrow>
        agrees h (visitConditionalS this h p s) (visitConditional tc n s)) \<and>
     (\<forall>h p inl parent s n. deref h p = Some n \<longrightarrow>
        agrees h (visitFilterS this h p inl parent s) (visitFilter tc n inl (deref_opt h parent) s))"

text \<open>A run that ended.\<close>

definition ends :: "outcome \<Rightarrow> bool" where
  "ends r \<longleftrightarrow> r \<noteq> None"

text \<open>The depth of calls that is enough for the node at a reference grows with the size of
  the node; \<open>visit\<close> needs three calls more, a handler that is called directly two, and
  \<open>visitPipelessTextBlock\<close> one.  Methods are deep enough for \<open>k\<close> when each ends on
  every node for which \<open>k\<close> calls are enough.\<close>

definition weight :: "node \<Rightarrow> ref \<Rightarrow> nat" where
  "weight h p = 5 * size_option size (deref h p)"

definition deep_enough :: "methods \<Rightarrow> nat \<Rightarrow> bool" where
  "deep_enough this k \<longleftrightarrow>
     (\<forall>h p parent inl s. weight h p + 3 \<le> k \<longrightarrow> ends (visitS this h p parent inl s)) \<and>
     (\<forall>h p inl parent s. weight h p + 2 \<le> k \<longrightarrow> ends (visitBlockS this h p inl parent s)) \<and>
     (\<forall>h p noEscape s. weight h p + 1 \<le> k \<longrightarrow>
        ends (visitPipelessTextBlockS this h p noEscape s)) \<and>
     (\<forall>h p inl parent s. weight h p + 2 \<le> k \<longrightarrow> ends (visitCodeS this h p inl parent s)) \<and>
     (\<forall>h p s. weight h p + 2 \<le> k \<longrightarrow> ends (visitConditionalS this h p s)) \<and>
     (\<forall>h p inl parent s. weight h p + 2 \<le> k \<longrightarrow> ends (visitFilterS this h p inl parent s))"

text \<open>A child of type \<open>Block\<close> that is no \<open>yield\<close> placeholder, and the children of a
  \<open>Block\<close>.\<close>

definition nested_block :: "node \<Rightarrow> bool" where
  "nested_block c \<longleftrightarrow> ntype c = ''Block'' \<and> \<not> yield c"

fun contents_of :: "node \<Rightarrow> node list" where
  "contents_of (Block l f y ns) = ns"
| "contents_of n = []"

text \<open>A node that the normalizer has nothing to do on: it is no such \<open>Block\<close> and has
  none as the child of a \<open>Block\<close> anywhere in it.\<close>

definition settled :: "node \<Rightarrow> bool" where
  "settled c \<longleftrightarrow> \<not> nested_block c \<and> no_nested_block c"

subsection \<open>The error for a malformed filter chain\<close>




section \<open>Quote selection\<close>

lemma replace_char_escaped:
  "replace_char q [backslash, q] v = backslash_escaped q v"
  by (induction v) (simp_all add: replace_char_def)

lemma backslash_escaped_absent: "q \<notin> set v \<Longrightarrow> backslash_escaped q v = v"
  by (induction v) auto

text \<open>C2.  For a preferred quote character \<open>q\<close> that is one of the two quote
  characters, \<open>quote\<close> wraps the value in the other quote character, unescaped,
  exactly when the value contains \<open>q\<close> and not the other quote character; in every
  other case it wraps the value in \<open>q\<close> with every occurrence of \<open>q\<close>
  backslash-escaped.  In particular, with preferred quote \<open>'\<close>: a value with only
  \<open>'\<close> comes out in double quotes, a value with only \<open>"\<close> comes out in
  single quotes unchanged, and a value with both comes out in single quotes with its
  single quotes escaped.\<close>

theorem quote_selection:
  assumes "preferredQuote opts = [q]" and "q = squote \<or> q = dquote"
  shows "quote opts v =
           (if q \<in> set v \<and> other_quote q \<notin> set v
            then other_quote q # v @ [other_quote q]
            else q # backslash_escaped q v @ [q])
       \<and> (q = squote \<and> squote \<in> set v \<and> dquote \<notin> set v \<longrightarrow>
           quote opts v = dquote # v @ [dquote])
       \<and> (q = squote \<and> dquote \<in> set v \<and> squote \<notin> set v \<longrightarrow>
           quote opts v = squote # v @ [squote])
       \<and> (q = squote \<and> squote \<in> set v \<and> dquote \<in> set v \<longrightarrow>
           quote opts v = squote # backslash_escaped squote v @ [squote])"
  using assms
  by (auto simp: quote_def other_quote_def replace_char_escaped backslash_escaped_absent
      squote_def dquote_def)

theorem quote_selection_witness:
  "quote defaultOptions (''it'' @ [squote] @ ''s'') = dquote # ''it'' @ [squote] @ ''s'' @ [dquote]
   \<and> quote defaultOptions (''a'' @ [dquote] @ ''b'') = squote # ''a'' @ [dquote] @ ''b'' @ [squote]
   \<and> quote defaultOptions ([squote, dquote]) = [squote, backslash, squote, dquote, squote]
   \<and> quote (defaultOptions \<lparr> preferredQuote := [dquote] \<rparr>) [dquote] = [squote, dquote, squote]"
  using quote_selection [of defaultOptions squote "''it'' @ [squote] @ ''s''"]
    quote_selection [of defaultOptions squote "''a'' @ [dquote] @ ''b''"]
    quote_selection [of defaultOptions squote "[squote, dquote]"]
    quote_selection [of "defaultOptions \<lparr> preferredQuote := [dquote] \<rparr>" dquote "[dquote]"]
  by (simp add: defaultOptions_def other_quote_def squote_def dquote_def)

section \<open>Normalization is idempotent\<close>

lemma plain_block_cleanUpAST: "plain_block (cleanUpAST x) = plain_block x"
  by (cases x) (simp_all add: plain_block_def)

lemma the_nodes_children_plain:
  "plain_block b \<Longrightarrow> no_nested_block b \<Longrightarrow> x \<in> set (the_nodes b) \<Longrightarrow> \<not> plain_block x"
  by (cases b) (auto simp: plain_block_def the_nodes_def list_all_iff)

lemma cleanUpAST_no_nested_block: "no_nested_block (cleanUpAST t)"
proof (induction t rule: cleanUpAST.induct)
  case (1 l f y ns)
  let ?flat = "flatten_blocks (\<lambda>c. the_nodes (cleanUpAST c)) ns"
  have "\<not> plain_block (cleanUpAST x) \<and> no_nested_block (cleanUpAST x)" if "x \<in> set ?flat" for x
  proof -
    from that consider "x \<in> set ns" "\<not> plain_block x"
      | c where "c \<in> set ns" "plain_block c" "x \<in> set (the_nodes (cleanUpAST c))"
      unfolding flatten_blocks_eq by (auto split: if_splits)
    then have "\<not> plain_block x"
    proof cases
      case 1
      then show ?thesis by simp
    next
      case 2
      then show ?thesis
        using "1.IH"(1) the_nodes_children_plain [of "cleanUpAST c" x]
        by (simp add: plain_block_cleanUpAST)
    qed
    then show ?thesis using "1.IH"(2) that by (simp add: plain_block_cleanUpAST)
  qed
  then show ?case by (simp add: list_all_iff)
qed (auto simp: list_all_iff split: option.splits)

lemma cleanUpAST_fixed: "no_nested_block t \<Longrightarrow> cleanUpAST t = t"
proof (induction t rule: no_nested_block.induct)
  case (1 l f y ns)
  then have np: "\<And>c. c \<in> set ns \<Longrightarrow> \<not> plain_block c"
    and fx: "\<And>c. c \<in> set ns \<Longrightarrow> cleanUpAST c = c"
    by (auto simp: list_all_iff)
  have "flatten_blocks (\<lambda>c. the_nodes (cleanUpAST c)) ns = ns"
    unfolding flatten_blocks_eq using np by (induction ns) auto
  then show ?case using fx by (simp add: map_idI)
qed (auto simp: list_all_iff map_idI split: option.splits)

text \<open>C1.  Normalization is idempotent: a second pass over a normalized tree returns
  the same tree; and after one pass no \<open>Block\<close> anywhere in the tree has a child
  that is a \<open>Block\<close> other than a \<open>yield\<close> placeholder.\<close>

theorem cleanUpAST_idempotent:
  "cleanUpAST (cleanUpAST t) = cleanUpAST t \<and> no_nested_block (cleanUpAST t)"
  by (simp add: cleanUpAST_fixed cleanUpAST_no_nested_block)

text \<open>The example of the source's comment: \<open>Block1 {Block2 {Tag1}, Tag2}\<close> becomes
  \<open>Block {Tag1, Tag2}\<close>, and stays so.\<close>

theorem cleanUpAST_idempotent_witness:
  "cleanUpAST (Block 1 None False
       [Block 1 None False [Tag 1 None ''a'' [] [] False False None (Some (Block 1 None False []))],
        Tag 2 None ''b'' [] [] False False None (Some (Block 2 None False []))])
     = Block 1 None False
         [Tag 1 None ''a'' [] [] False False None (Some (Block 1 None False [])),
          Tag 2 None ''b'' [] [] False False None (Some (Block 2 None False []))]
   \<and> cleanUpAST (cleanUpAST (Block 1 None False
       [Block 1 None False [Tag 1 None ''a'' [] [] False False None (Some (Block 1 None False []))],
        Tag 2 None ''b'' [] [] False False None (Some (Block 2 None False []))]))
     = Block 1 None False
         [Tag 1 None ''a'' [] [] False False None (Some (Block 1 None False [])),
          Tag 2 None ''b'' [] [] False False None (Some (Block 2 None False []))]"
  using cleanUpAST_idempotent [of "Block 1 None False
       [Block 1 None False [Tag 1 None ''a'' [] [] False False None (Some (Block 1 None False []))],
        Tag 2 None ''b'' [] [] False False None (Some (Block 2 None False []))]"]
  by (simp add: flatten_blocks_def plain_block_def the_nodes_def slice_def)

section \<open>The order of the attribute shorthands\<close>

lemma id_not_class: "id_shorthand tc a \<Longrightarrow> \<not> class_shorthand tc a"
  by (auto simp: id_shorthand_def class_shorthand_def)

lemma attr_step_class:
  "class_shorthand tc a \<Longrightarrow>
   attr_step tc opts acc a = acc \<lparr> classes := classes acc @ ''.'' @ to_string (const_val tc a) \<rparr>"
  by (simp add: attr_step_def class_shorthand_def Let_def)

lemma attr_step_id:
  "id_shorthand tc a \<Longrightarrow> \<not> id_set acc \<Longrightarrow>
   attr_step tc opts acc a = acc \<lparr> id_val := Some (const_val tc a) \<rparr>"
  by (auto simp: attr_step_def id_shorthand_def id_set_def Let_def)

lemma attr_step_other:
  "\<not> class_shorthand tc a \<Longrightarrow> id_set acc \<or> \<not> id_shorthand tc a \<Longrightarrow>
   attr_step tc opts acc a = acc \<lparr> regularAttrs := regularAttrs acc @ [attr_out tc opts a] \<rparr>"
  by (auto simp: attr_step_def id_shorthand_def class_shorthand_def id_set_def Let_def)

text \<open>Once the id is set, or when no attribute qualifies for it, the loop only
  collects classes and regular attributes.\<close>

lemma foldl_attr_step_no_id:
  "id_set acc \<or> filter (id_shorthand tc) as = [] \<Longrightarrow>
   foldl (attr_step tc opts) acc as =
     acc \<lparr> classes := classes acc @ class_text tc as,
           regularAttrs := regularAttrs acc @ others_text tc opts as \<rparr>"
proof (induction as arbitrary: acc)
  case Nil
  then show ?case by (simp add: class_text_def others_text_def)
next
  case (Cons a as)
  show ?case
  proof (cases "class_shorthand tc a")
    case True
    have "id_set (acc \<lparr> classes := classes acc @ ''.'' @ to_string (const_val tc a) \<rparr>)
            \<or> filter (id_shorthand tc) as = []"
      using Cons.prems by (auto simp: id_set_def split: if_splits)
    from Cons.IH [OF this] True show ?thesis
      by (simp add: attr_step_class class_text_def others_text_def)
  next
    case False
    have other: "id_set acc \<or> \<not> id_shorthand tc a"
      using Cons.prems by (auto split: if_splits)
    have "id_set (acc \<lparr> regularAttrs := regularAttrs acc @ [attr_out tc opts a] \<rparr>)
            \<or> filter (id_shorthand tc) as = []"
      using Cons.prems by (auto simp: id_set_def split: if_splits)
    from Cons.IH [OF this] False other show ?thesis
      by (simp add: attr_step_other class_text_def others_text_def)
  qed
qed

text \<open>The first attribute that qualifies for the id shorthand sets the id.\<close>

lemma foldl_attr_step_first_id:
  assumes "\<not> id_set acc" and "filter (id_shorthand tc) pre = []" and "id_shorthand tc i"
  shows "foldl (attr_step tc opts) acc (pre @ i # post) =
     acc \<lparr> classes := classes acc @ class_text tc (pre @ post),
           id_val := Some (const_val tc i),
           regularAttrs := regularAttrs acc @ others_text tc opts (pre @ post) \<rparr>"
proof -
  let ?acc1 = "acc \<lparr> classes := classes acc @ class_text tc pre,
                     regularAttrs := regularAttrs acc @ others_text tc opts pre \<rparr>"
  have 1: "foldl (attr_step tc opts) acc pre = ?acc1"
    using assms(2) by (simp add: foldl_attr_step_no_id)
  have "\<not> id_set ?acc1" using assms(1) by (simp add: id_set_def)
  then have 2: "attr_step tc opts ?acc1 i = ?acc1 \<lparr> id_val := Some (const_val tc i) \<rparr>"
    using assms(3) by (rule attr_step_id [rotated])
  have "id_set (?acc1 \<lparr> id_val := Some (const_val tc i) \<rparr>)"
    using assms(3) by (simp add: id_set_def id_shorthand_def)
  then have 3: "foldl (attr_step tc opts) (?acc1 \<lparr> id_val := Some (const_val tc i) \<rparr>) post =
     (?acc1 \<lparr> id_val := Some (const_val tc i) \<rparr>)
       \<lparr> classes := classes ?acc1 @ class_text tc post,
         regularAttrs := regularAttrs ?acc1 @ others_text tc opts post \<rparr>"
    by (simp add: foldl_attr_step_no_id)
  have "foldl (attr_step tc opts) acc (pre @ i # post) =
          foldl (attr_step tc opts) (attr_step tc opts (foldl (attr_step tc opts) acc pre) i) post"
    by simp
  also have "\<dots> = (?acc1 \<lparr> id_val := Some (const_val tc i) \<rparr>)
       \<lparr> classes := classes ?acc1 @ class_text tc post,
         regularAttrs := regularAttrs ?acc1 @ others_text tc opts post \<rparr>"
    by (simp only: 1 2 3)
  also have "\<dots> = acc \<lparr> classes := classes acc @ class_text tc (pre @ post),
           id_val := Some (const_val tc i),
           regularAttrs := regularAttrs acc @ others_text tc opts (pre @ post) \<rparr>"
    by (simp add: class_text_def others_text_def)
  finally show ?thesis .
qed

lemma filter_single_split:
  "filter P xs = [i] \<Longrightarrow> \<exists>pre post. xs = pre @ i # post \<and> filter P pre = [] \<and> filter P post = [] \<and> P i"
proof (induction xs)
  case Nil
  then show ?case by simp
next
  case (Cons x xs)
  show ?case
  proof (cases "P x")
    case True
    then have "x = i" "filter P xs = []" using Cons.prems by simp_all
    then have "x # xs = [] @ i # xs \<and> filter P [] = [] \<and> filter P xs = [] \<and> P i"
      using True by simp
    then show ?thesis by blast
  next
    case False
    then obtain pre post where "xs = pre @ i # post" "filter P pre = []" "filter P post = []" "P i"
      using Cons by auto
    then have "x # xs = (x # pre) @ i # post \<and> filter P (x # pre) = [] \<and> filter P post = [] \<and> P i"
      using False by simp
    then show ?thesis by blast
  qed
qed

text \<open>C3.  An attribute list with exactly one attribute \<open>i\<close> that qualifies for the id
  shorthand and exactly one attribute \<open>c\<close> that qualifies for the class shorthand is
  rendered as \<open>#\<close> and the id, then \<open>.\<close> and the class, then the remaining attributes
  in their input order, joined by spaces in parentheses, the parentheses being left
  out when nothing remains.  The result depends on the input order only through the
  order of the remaining attributes.\<close>

theorem attrs_shorthand_order:
  assumes "filter (id_shorthand tc) as = [i]" and "filter (class_shorthand tc) as = [c]"
  shows "attrs tc opts as =
           ''#'' @ to_string (const_val tc i) @ ''.'' @ to_string (const_val tc c) @
           (let others = filter (\<lambda>a. \<not> id_shorthand tc a \<and> \<not> class_shorthand tc a) as
            in if others = [] then []
               else ''('' @ join '' '' (map (attr_out tc opts) others) @ '')'')"
proof -
  obtain pre post where split: "as = pre @ i # post" "filter (id_shorthand tc) pre = []"
      "filter (id_shorthand tc) post = []" "id_shorthand tc i"
    using filter_single_split [OF assms(1)] by blast
  let ?acc0 = "\<lparr> regularAttrs = [], classes = [], id_val = None \<rparr>"
  have "\<not> id_set ?acc0" by (simp add: id_set_def)
  from foldl_attr_step_first_id [OF this split(2) split(4), of opts post]
  have run: "foldl (attr_step tc opts) ?acc0 as =
     \<lparr> regularAttrs = others_text tc opts (pre @ post),
       classes = class_text tc (pre @ post), id_val = Some (const_val tc i) \<rparr>"
    by (simp add: split(1))
  have nc: "\<not> class_shorthand tc i" using split(4) by (rule id_not_class)
  have cls: "class_text tc (pre @ post) = ''.'' @ to_string (const_val tc c)"
    using assms(2) nc by (simp add: class_text_def split(1))
  have "filter (\<lambda>a. \<not> id_shorthand tc a \<and> \<not> class_shorthand tc a) as
          = filter (\<lambda>a. \<not> class_shorthand tc a) (pre @ post)"
    using split by (simp add: filter_empty_conv cong: filter_cong)
  then have oth: "others_text tc opts (pre @ post) =
      map (attr_out tc opts) (filter (\<lambda>a. \<not> id_shorthand tc a \<and> \<not> class_shorthand tc a) as)"
    by (simp add: others_text_def)
  have tr: "truthy (const_val tc i)" using split(4) by (simp add: id_shorthand_def)
  show ?thesis
    unfolding attrs_def run Let_def using tr by (simp add: cls oth)
qed

lemma literal_oracle_shorthands:
  "id_shorthand literal_oracle attr_id_box" "\<not> class_shorthand literal_oracle attr_id_box"
  "class_shorthand literal_oracle attr_class_big" "\<not> id_shorthand literal_oracle attr_class_big"
  "\<not> id_shorthand literal_oracle attr_title" "\<not> class_shorthand literal_oracle attr_title"
  "\<not> id_shorthand literal_oracle attr_href" "\<not> class_shorthand literal_oracle attr_href"
  by (simp_all add: id_shorthand_def class_shorthand_def literal_oracle_def const_val_def
      attr_id_box_def attr_class_big_def attr_title_def attr_href_def id_pattern_def
      is_word_dash_def is_word_def is_alpha_us_def lower_chars_def upper_chars_def
      digit_chars_def squote_def)

lemma literal_oracle_texts:
  "to_string (const_val literal_oracle attr_id_box) = ''box''"
  "to_string (const_val literal_oracle attr_class_big) = ''big''"
  "attr_out literal_oracle defaultOptions attr_title = ''title=t''"
  "attr_out literal_oracle defaultOptions attr_href = ''href!=h''"
  by (simp_all add: literal_oracle_def const_val_def attr_out_def
      attr_id_box_def attr_class_big_def attr_title_def attr_href_def
      is_word_def lower_chars_def upper_chars_def digit_chars_def name_rest_char_def
      is_space_def squote_def dquote_def)

theorem attrs_shorthand_order_witness:
  "attrs literal_oracle defaultOptions [attr_class_big, attr_title, attr_id_box, attr_href]
     = ''#box.big(title=t href!=h)''
   \<and> attrs literal_oracle defaultOptions [attr_href, attr_id_box, attr_title, attr_class_big]
     = ''#box.big(href!=h title=t)''
   \<and> attrs literal_oracle defaultOptions [attr_class_big, attr_id_box] = ''#box.big''"
  using
    attrs_shorthand_order [of literal_oracle "[attr_class_big, attr_title, attr_id_box, attr_href]"
      attr_id_box attr_class_big defaultOptions]
    attrs_shorthand_order [of literal_oracle "[attr_href, attr_id_box, attr_title, attr_class_big]"
      attr_id_box attr_class_big defaultOptions]
    attrs_shorthand_order [of literal_oracle "[attr_class_big, attr_id_box]"
      attr_id_box attr_class_big defaultOptions]
  by (simp add: literal_oracle_shorthands literal_oracle_texts)

section \<open>The dot-block heuristic\<close>

lemma is_word_char: "is_word c = word_char c"
  by (cases c)
    (simp add: is_word_def word_char_def lower_chars_def upper_chars_def digit_chars_def Let_def)

lemma is_space_char: "is_space c = space_char c"
  by (cases c) (simp add: is_space_def space_char_def Let_def)

lemma word_not_space: "word_char c \<Longrightarrow> \<not> space_char c"
  by (auto simp: word_char_def space_char_def Let_def)

lemma count_upt_Cons:
  "length (filter P [0..<Suc n]) = (if P 0 then 1 else 0) + length (filter (\<lambda>i. P (Suc i)) [0..<n])"
proof -
  have "[0..<Suc n] = 0 # map Suc [0..<n]"
    by (simp add: upt_conv_Cons map_Suc_upt del: upt_Suc)
  then show ?thesis by (simp add: filter_map o_def del: upt_Suc)
qed

lemma words_of_Cons:
  "words_of (c # cs) =
     (if word_char c \<and> (cs = [] \<or> space_char (hd cs)) then 1 else 0) + words_of cs"
proof -
  have "word_end (c # cs) 0 \<longleftrightarrow> word_char c \<and> (cs = [] \<or> space_char (hd cs))"
    by (cases cs) (simp_all add: word_end_def)
  moreover have "(\<lambda>i. word_end (c # cs) (Suc i)) = word_end cs"
    by (rule ext) (simp add: word_end_def)
  ultimately show ?thesis
    unfolding words_of_def by (simp add: count_upt_Cons del: upt_Suc)
qed

lemma count_words_from_eq:
  "count_words_from inw v = (if inw \<and> (v = [] \<or> space_char (hd v)) then 1 else 0) + words_of v"
proof (induction v arbitrary: inw)
  case Nil
  show ?case by (simp add: words_of_def)
next
  case (Cons c cs)
  show ?case
    using word_not_space [of c]
    by (simp add: Cons.IH words_of_Cons is_word_char is_space_char)
qed

lemma count_words_eq: "count_words v = words_of v"
  by (simp add: count_words_def count_words_from_eq)

lemma starts_line_eq:
  "starts_line n prev \<longleftrightarrow>
     (case prev of None \<Rightarrow> - 1 < line n | Some p \<Rightarrow> line p < line n \<or> line_feed_text p)"
proof (cases prev)
  case None
  then show ?thesis by (simp add: starts_line_def prev_line_def prev_is_newline_text_def)
next
  case (Some p)
  then show ?thesis
    by (cases p) (simp_all add: starts_line_def prev_line_def prev_is_newline_text_def newline_def)
qed

lemma begins_line_0: "begins_line prev (n # ns) 0 = starts_line n prev"
  by (simp add: begins_line_def node_before_def starts_line_eq split: option.split)

lemma begins_line_Suc: "begins_line prev (n # ns) (Suc i) = begins_line (Some n) ns i"
  by (cases i) (simp_all add: begins_line_def node_before_def)

lemma own_line_from_0:
  "own_line_from prev prevStart (n # ns) 0 \<longleftrightarrow> output_code n \<and> starts_line n prev \<and> prevStart"
  by (simp add: own_line_from_def begins_line_0)

lemma own_line_from_Suc:
  "own_line_from prev prevStart (n # ns) (Suc i) = own_line_from (Some n) (starts_line n prev) ns i"
  by (cases i) (simp_all add: own_line_from_def begins_line_0 begins_line_Suc)

lemma own_line_count_Cons:
  "length (filter (own_line_from prev prevStart (n # ns)) [0..<length (n # ns)]) =
     (if output_code n \<and> starts_line n prev \<and> prevStart then 1 else 0)
     + length (filter (own_line_from (Some n) (starts_line n prev) ns) [0..<length ns])"
  by (simp add: count_upt_Cons own_line_from_0 own_line_from_Suc del: upt_Suc)

lemma useDot_loop_eq:
  "useDot_loop prev ns w c prevStart =
     (if list_all dot_child ns
      then Some (w + word_total ns,
                 c + length (filter (own_line_from prev prevStart ns) [0..<length ns]))
      else None)"
proof (induction ns arbitrary: prev w c prevStart)
  case Nil
  then show ?case by (simp add: word_total_def)
next
  case (Cons n ns)
  show ?case
    unfolding own_line_count_Cons
    by (cases n) (simp_all add: Cons.IH word_total_def count_words_eq del: upt_Suc)
qed

lemma own_line_from_False: "own_line_from parent False ns = own_line_code parent ns"
  by (rule ext) (auto simp: own_line_from_def own_line_code_def)

text \<open>C6.  \<open>useDot\<close> is false for a block without children, for a block whose children
  span exactly one line, and whenever a child is neither a \<open>Text\<close> nor a buffered
  \<open>Code\<close> without a block; otherwise it is true exactly when the word count of the
  \<open>Text\<close> children is positive and the number of own-line \<open>Code\<close> children divided
  by the line span is strictly below 35/100 (the quotient by a span of zero is not
  below it).  The word count and the own-line count are the ones stated above on the
  texts and on the positions of the children, not the counters of the loop.\<close>

theorem useDot_characterization:
  "useDot blk parent =
     (case nodes blk of
        None \<Rightarrow> False
      | Some ns \<Rightarrow>
          ns \<noteq> [] \<and> line_span ns \<noteq> 1 \<and> list_all dot_child ns \<and>
          0 < word_total ns \<and> line_span ns \<noteq> 0 \<and>
          real (own_line_codes parent ns) / real_of_int (line_span ns) < 35 / 100)"
  by (auto simp: useDot_def useDot_loop_eq own_line_from_False Let_def line_span_def
      own_line_codes_def ratio_below_def split: option.splits)

lemma boundary_counts:
  "word_total (the_nodes block_7_of_20) = 10 \<and> own_line_codes None (the_nodes block_7_of_20) = 7
   \<and> line_span (the_nodes block_7_of_20) = 20"
  "word_total (the_nodes block_17_of_50) = 10 \<and> own_line_codes None (the_nodes block_17_of_50) = 17
   \<and> line_span (the_nodes block_17_of_50) = 50"
  "word_total (the_nodes block_code_in_line) = 4 \<and> own_line_codes None (the_nodes block_code_in_line) = 0
   \<and> line_span (the_nodes block_code_in_line) = 2"
  by code_simp+

theorem useDot_characterization_witness:
  "\<not> useDot block_7_of_20 None \<and> useDot block_17_of_50 None \<and> useDot block_code_in_line None"
  using useDot_characterization [of block_7_of_20 None]
    useDot_characterization [of block_17_of_50 None]
    useDot_characterization [of block_code_in_line None] boundary_counts
  by (simp add: block_7_of_20_def block_17_of_50_def block_code_in_line_def the_nodes_def code_at_def)

section \<open>A node of an unsupported type\<close>

lemma Unknown_no_handler: "\<not> has_handler ''Unknown''"
  by (simp add: has_handler_def handled_types_def)

lemma show_int_3_7: "show_int 3 = ''3''" "show_int 7 = ''7''"
  by (simp_all add: show_int_def digits.simps digit_chars_def)

text \<open>C7 as stated fails: the message of the error for a child of an unsupported type
  carries the child's own location, \<open>Jade:7\<close>, and not the parent's, \<open>a.jade:3\<close>.\<close>

theorem unsupported_names_parent_location_counterexample:
  "visit no_constants (Some unknown_at_7) (Some parent_at_3) False fresh_compiler
     = Throw (UnsupportedNodeType
         ''A child of Block (Jade:7) is of type Unknown, which is not supported by jade-source-gen.'')
         fresh_compiler
   \<and> location parent_at_3 = ''a.jade:3''
   \<and> \<not> sublist (location parent_at_3)
         ''A child of Block (Jade:7) is of type Unknown, which is not supported by jade-source-gen.''"
  by (simp add: unknown_at_7_def parent_at_3_def Unknown_no_handler unsupported_msg_def
      file_or_Jade_def location_def show_int_3_7 sublist_Cons_right)

text \<open>C7, amended.  For a node whose type string has no handler, \<open>visit\<close> throws
  \<open>UnsupportedNodeType\<close>, a \<open>TypeError\<close>, and leaves the compiler as it was: no output.
  The message is \<open>A child of\<close> and the parent's type (or \<open>A top-level node\<close>), then in
  parentheses the node's own location, then the node's type.\<close>

theorem visit_unsupported:
  assumes "\<not> has_handler t"
  shows "\<exists>msg. visit tc (Some (Unknown l f t)) parent inl s = Throw (UnsupportedNodeType msg) s
           \<and> is_TypeError (UnsupportedNodeType msg)
           \<and> msg = (case parent of Some p \<Rightarrow> ''A child of '' @ ntype p | None \<Rightarrow> ''A top-level node'')
                   @ '' ('' @ location (Unknown l f t) @ '')''
                   @ '' is of type '' @ t @ '', which is not supported by jade-source-gen.''
           \<and> sublist t msg \<and> sublist (location (Unknown l f t)) msg
           \<and> (case parent of Some p \<Rightarrow> sublist (ntype p) msg | None \<Rightarrow> True)"
proof -
  let ?ctx = "case parent of Some p \<Rightarrow> ''A child of '' @ ntype p | None \<Rightarrow> ''A top-level node''"
  let ?msg = "?ctx @ '' ('' @ location (Unknown l f t) @ '')''
                @ '' is of type '' @ t @ '', which is not supported by jade-source-gen.''"
  have 1: "visit tc (Some (Unknown l f t)) parent inl s = Throw (UnsupportedNodeType ?msg) s"
    using assms by (simp add: unsupported_msg_def location_def)
  have 2: "sublist t ?msg"
    by (rule sublist_appendI [of t "?ctx @ '' ('' @ location (Unknown l f t) @ '')'' @ '' is of type ''"
          "'', which is not supported by jade-source-gen.''", simplified append_assoc])
  have 3: "sublist (location (Unknown l f t)) ?msg"
    by (rule sublist_appendI [of "location (Unknown l f t)" "?ctx @ '' (''"
          "'')'' @ '' is of type '' @ t @ '', which is not supported by jade-source-gen.''",
          simplified append_assoc])
  have 4: "case parent of Some p \<Rightarrow> sublist (ntype p) ?msg | None \<Rightarrow> True"
  proof (cases parent)
    case None
    then show ?thesis by simp
  next
    case (Some p)
    have "sublist (ntype p) (''A child of '' @ ntype p @ ('' ('' @ location (Unknown l f t) @ '')''
                @ '' is of type '' @ t @ '', which is not supported by jade-source-gen.''))"
      by (rule sublist_appendI)
    then show ?thesis using Some by simp
  qed
  show ?thesis using 1 2 3 4 by (intro exI [of _ ?msg]) simp
qed

theorem visit_unsupported_witness:
  "visit no_constants (Some unknown_at_7) None False fresh_compiler
     = Throw (UnsupportedNodeType
         ''A top-level node (Jade:7) is of type Unknown, which is not supported by jade-source-gen.'')
         fresh_compiler"
  using visit_unsupported [OF Unknown_no_handler, of no_constants 7 None None False fresh_compiler]
  by (simp add: unknown_at_7_def location_def file_or_Jade_def show_int_3_7)

section \<open>Two scenarios\<close>

lemma cleanUpAST_box_tag: "cleanUpAST (box_tag e) = box_tag e"
  by (simp add: box_tag_def flatten_blocks_def plain_block_def)

lemma useDot_single_line:
  "\<not> useDot (Block 1 None False [Text 1 None ''Hi'' False]) p"
  by (simp add: useDot_def)

lemma box_attrs:
  assumes "tc quoted_box = Some (JString ''box'')"
  shows "attrs tc defaultOptions [\<lparr> attr_name = ''id'', attr_val = quoted_box, attr_escaped = True \<rparr>]
           = ''(id='' @ quoted_box @ '')''"
    and "attrs tc defaultOptions [\<lparr> attr_name = ''id'', attr_val = quoted_box, attr_escaped = False \<rparr>]
           = ''#box''"
  using assms
  by (simp_all add: attrs_def attr_step_def attr_out_def const_val_def id_pattern_def
      is_word_dash_def is_word_def lower_chars_def upper_chars_def digit_chars_def
      name_rest_char_def is_space_def squote_def dquote_def)

lemma box_compile:
  assumes "tc quoted_box = Some (JString ''box'')"
  shows "generateCode tc (box_tag True) defaultOptions = Inr (''div(id='' @ quoted_box @ '') Hi'')"
    and "generateCode tc (box_tag False) defaultOptions = Inr ''#box Hi''"
  using assms box_attrs [of tc]
  by (simp_all add: generateCode_def compile_def Compiler_def cleanUpAST_box_tag)
    (simp_all add: box_tag_def tag_stub_def tag_stub_out_def close_bracket_def text_out_def
      attributeBlocks_def bufLine_def buffer_def indent_def
      repeat_def defaultOptions_def node_inline_def space_before_def useColon_def useDot_def
      then_do_def escape_interp.simps backslash_def)

text \<open>C4 as stated fails: with an oracle that folds \<open>"box"\<close> to \<open>box\<close>, the tag with the
  escaped id compiles to \<open>div(id="box") Hi\<close>, not to \<open>#box Hi\<close>.\<close>

theorem escaped_id_scenario_counterexample:
  "generateCode box_oracle (box_tag True) defaultOptions
     = Inr (''div(id='' @ [dquote] @ ''box'' @ [dquote] @ '') Hi'')
   \<and> generateCode box_oracle (box_tag True) defaultOptions \<noteq> Inr ''#box Hi''"
  using box_compile(1) [of box_oracle]
  by (simp add: box_oracle_def quoted_box_def)

text \<open>C4, amended.  For every oracle that folds \<open>"box"\<close> to the string \<open>box\<close>: the tag
  with the escaped id compiles to \<open>div(id="box") Hi\<close>, since the shorthand is for an
  unescaped id only; the same tag with the id unescaped compiles to \<open>#box Hi\<close>.\<close>

theorem id_shorthand_scenario:
  assumes "tc quoted_box = Some (JString ''box'')"
  shows "generateCode tc (box_tag True) defaultOptions = Inr (''div(id='' @ quoted_box @ '') Hi'')
       \<and> generateCode tc (box_tag False) defaultOptions = Inr ''#box Hi''"
  using assms box_compile [of tc] by simp

theorem id_shorthand_scenario_witness:
  "generateCode box_oracle (box_tag True) defaultOptions = Inr (''div(id='' @ quoted_box @ '') Hi'')
   \<and> generateCode box_oracle (box_tag False) defaultOptions = Inr ''#box Hi''"
  using id_shorthand_scenario [of box_oracle] by (simp add: box_oracle_def)

text \<open>C5.  The generator emits three lines, \<open>if x\<close>, \<open>else \<close> and \<open>if y\<close>: after
  \<open>bufLine('else ')\<close> the nested \<open>visitConditional\<close> starts a line of its own with
  \<open>bufLine\<close>.  The two lines \<open>if x\<close> and \<open>else if y\<close> of the scenario are not what
  it returns.\<close>

theorem else_if_scenario:
  "generateCode tc cond_xy defaultOptions = Inr (''if x'' @ [newline] @ ''else '' @ [newline] @ ''if y'')
   \<and> generateCode tc cond_xy defaultOptions \<noteq> Inr (''if x'' @ [newline] @ ''else if y'')"
  by (simp add: generateCode_def compile_def Compiler_def cond_xy_def flatten_blocks_def
      bufLine_def indent_def repeat_def defaultOptions_def useColon_def useDot_def then_do_def
      newline_def)

theorem else_if_scenario_witness:
  "generateCode no_constants cond_xy defaultOptions
     = Inr (''if x'' @ [newline] @ ''else '' @ [newline] @ ''if y'')"
  using else_if_scenario [of no_constants] by simp

section \<open>What a visit leaves unchanged\<close>

lemma state_fields [simp]:
  "indents (buffer c s) = indents s" "nested (buffer c s) = nested s"
  "node (buffer c s) = node s" "options (buffer c s) = options s"
  "indents (bufLine c a s) = indents s" "nested (bufLine c a s) = nested s"
  "node (bufLine c a s) = node s" "options (bufLine c a s) = options s"
  "indents (visitPipelessText v e s) = indents s" "nested (visitPipelessText v e s) = nested s"
  "node (visitPipelessText v e s) = node s" "options (visitPipelessText v e s) = options s"
  by (simp_all add: buffer_def bufLine_def visitPipelessText_def Let_def)

lemma frame_of_simps [simp]:
  "frame_of (buffer c s) = frame_of s"
  "frame_of (bufLine c a s) = frame_of s"
  "frame_of (visitPipelessText v e s) = frame_of s"
  "frame_of (space_before i ns s) = frame_of s"
  "frame_of (s \<lparr> buf := b \<rparr>) = frame_of s"
  "frame_of (tag_stub_out inl c s) = frame_of s"
  "frame_of (close_bracket inl s) = frame_of s"
  "frame_of (mixin_call_out inl c s) = frame_of s"
  "frame_of (filter_stub_out inl c s) = frame_of s"
  "frame_of (code_token bf es v s) = frame_of s"
  "frame_of (code_out inl bf es v s) = frame_of s"
  "frame_of (include_out tc flt as s) = frame_of s"
  "frame_of (dot_out parent s) = frame_of s"
  by (simp_all add: frame_of_def space_before_def tag_stub_out_def close_bracket_def
      mixin_call_out_def filter_stub_out_def code_token_def code_out_def include_out_def
      dot_out_def Let_def split: option.split)

lemma options_simps [simp]:
  "options (space_before i ns s) = options s"
  "options (tag_stub_out inl c s) = options s"
  "options (mixin_call_out inl c s) = options s"
  "options (filter_stub_out inl c s) = options s"
  "options (code_out inl bf es v s) = options s"
  "options (include_out tc flt as s) = options s"
  by (simp_all add: space_before_def tag_stub_out_def mixin_call_out_def filter_stub_out_def
      code_out_def include_out_def Let_def split: option.split)

lemma tree_of_simps [simp]:
  "tree_of (frame_of (s \<lparr> indents := i \<rparr>)) = tree_of (frame_of s)"
  "tree_of (frame_of (s \<lparr> nested := b \<rparr>)) = tree_of (frame_of s)"
  "tree_of (frame_of (pipeless_enter s)) = tree_of (frame_of s)"
  by (simp_all add: frame_of_def pipeless_enter_def Let_def)

lemma keeps_text_out [simp]: "frame_of s = fr \<Longrightarrow> keeps b fr (text_out v h inl s)"
  by (auto simp: text_out_def keeps_def)

lemma code_in_text_error:
  "code_in_text inl parent = Inl e \<Longrightarrow> e = NoBlock \<or> e = NativeTypeError"
  by (cases parent; cases "getBlock (the parent)")
    (auto simp: code_in_text_def split: option.splits if_splits elim: getBlock.elims)

lemma keeps_Done [simp]: "keeps b fr (Done s') \<longleftrightarrow> frame_of s' = fr"
  by (simp add: keeps_def)

lemma keeps_Throw [simp]:
  "keeps b fr (Throw e s') \<longleftrightarrow>
     tree_of (frame_of s') = tree_of fr \<and>
     (case e of InvalidFilterChain g \<Rightarrow> g \<in> b \<and> malformed_chain g | _ \<Rightarrow> True)"
  by (simp add: keeps_def)

lemma keeps_mono: "keeps b' fr r \<Longrightarrow> b' \<subseteq> b \<Longrightarrow> keeps b fr r"
  by (auto simp: keeps_def split: result.splits error.splits)

lemma keeps_then_do:
  assumes "keeps b fr r" and "\<And>s1. frame_of s1 = fr \<Longrightarrow> keeps b fr (k s1)"
  shows "keeps b fr (then_do r k)"
proof (cases r)
  case (Done s1)
  then have "frame_of s1 = fr" using assms(1) by simp
  from assms(2) [OF this] show ?thesis using Done by (simp add: then_do_def)
next
  case (Throw e s1)
  then show ?thesis using assms(1) by (simp add: then_do_def)
qed

lemma keeps_bracket:
  assumes "keeps b fr1 r" and "tree_of fr1 = tree_of fr"
    and "\<And>s2. frame_of s2 = fr1 \<Longrightarrow> frame_of (fin s2) = fr"
  shows "keeps b fr (then_do r (\<lambda>s2. Done (fin s2)))"
proof (cases r)
  case (Done s1)
  then have "frame_of s1 = fr1" using assms(1) by simp
  from assms(3) [OF this] show ?thesis using Done by (simp add: then_do_def)
next
  case (Throw e s1)
  then show ?thesis using assms(1,2) by (simp add: then_do_def)
qed

lemma Union_option_subset [simp]:
  "\<Union> (set_option (map_option h x)) \<subseteq> S \<longleftrightarrow> (\<forall>n\<in>set_option x. h n \<subseteq> S)"
  by (cases x) simp_all

lemma Union_list_subset [simp]:
  "\<Union> (set (map h xs)) \<subseteq> S \<longleftrightarrow> (\<forall>n\<in>set xs. h n \<subseteq> S)"
  by auto

lemma subnodes_self [simp]: "n \<in> subnodes n"
  by (cases n) simp_all

lemma nodes_subnodes:
  "nodes b = Some ns \<Longrightarrow> subnodes b \<subseteq> S \<Longrightarrow> n \<in> set ns \<Longrightarrow> subnodes n \<subseteq> S"
  by (cases b) auto

lemmas visitor_simps =
  visit.simps visitBlock.simps visitNodes.simps visitPipelessTextBlock.simps
  visitPipelessNodes.simps visitCode.simps visitConditional.simps visitFilter.simps

lemma visit_keeps:
  "frame_of s = fr \<Longrightarrow> (\<forall>n\<in>set_option no. subnodes n \<subseteq> b) \<Longrightarrow>
     keeps b fr (visit tc no parent inl s)"
  "frame_of s = fr \<Longrightarrow> subnodes blk \<subseteq> b \<Longrightarrow> keeps b fr (visitBlock tc blk inl parent s)"
  "frame_of s = fr \<Longrightarrow> (\<forall>n\<in>set ns. subnodes n \<subseteq> b) \<Longrightarrow>
     keeps b fr (visitNodes tc blk inl ns s)"
  "frame_of s = fr \<Longrightarrow> subnodes blk \<subseteq> b \<Longrightarrow>
     keeps b fr (visitPipelessTextBlock tc blk noEscape s)"
  "frame_of s = fr \<Longrightarrow> (\<forall>n\<in>set ns. subnodes n \<subseteq> b) \<Longrightarrow>
     keeps b fr (visitPipelessNodes tc blk noEscape ns s)"
  "frame_of s = fr \<Longrightarrow> subnodes n \<subseteq> b \<Longrightarrow> keeps b fr (visitCode tc n inl parent s)"
  "frame_of s = fr \<Longrightarrow> subnodes n \<subseteq> b \<Longrightarrow> keeps b fr (visitConditional tc n s)"
  "frame_of s = fr \<Longrightarrow> subnodes n \<subseteq> b \<Longrightarrow> keeps b fr (visitFilter tc n inl parent s)"
proof (induction tc no parent inl s and tc blk inl parent s and tc blk inl ns s
    and tc blk noEscape s and tc blk noEscape ns s and tc n inl parent s and tc n s
    and tc n inl parent s
    arbitrary: fr b and fr b and fr b and fr b and fr b and fr b and fr b and fr b
    rule: visit_visitBlock_visitNodes_visitPipelessTextBlock_visitPipelessNodes_visitCode_visitConditional_visitFilter.induct)
  case (3 tc l f e blk parent inl s)
  then show ?case
    by (subst visit.simps(3)) (auto simp: Let_def simp del: visitor_simps)
next
  case (4 tc l f e blk parent inl s)
  then show ?case
    by (subst visit.simps(4)) (auto simp: Let_def simp del: visitor_simps split: option.split)
next
  case (5 tc l f nm md y ns parent inl s)
  then show ?case
    by (subst visit.simps(5)) (auto simp: Let_def simp del: visitor_simps)
next
  case (6 tc l f y ns parent inl s)
  then show ?case
    by (subst visit.simps(6)) (auto simp: Let_def simp del: visitor_simps)
next
  case (9 tc l f nm ar cl as ab blk parent inl s)
  then show ?case
    by (subst visit.simps(9)) (auto simp: Let_def simp del: visitor_simps intro!: keeps_then_do split: option.split)
next
  case (10 tc l f nm as ab sc bf cd blk parent inl s)
  then show ?case
    by (subst visit.simps(10)) (auto simp: Let_def simp del: visitor_simps intro!: keeps_then_do split: option.split)
next
  case (13 tc l f v bf blk parent inl s)
  then show ?case
    by (subst visit.simps(13)) (auto simp: Let_def simp del: visitor_simps split: option.split)
next
  case (14 tc l f v bf es blk parent inl s)
  then show ?case
    by (subst visit.simps(14)) (auto simp: Let_def simp del: visitor_simps)
next
  case (15 tc l f t c a parent inl s)
  then show ?case
    by (subst visit.simps(15)) (auto simp: Let_def simp del: visitor_simps)
next
  case (16 tc l f t blk parent inl s)
  then show ?case
    by (subst visit.simps(16)) (auto simp: Let_def simp del: visitor_simps)
next
  case (17 tc l f v k ob blk alt parent inl s)
  then show ?case
    by (subst visit.simps(17)) (auto simp: Let_def simp del: visitor_simps intro!: keeps_then_do split: option.split)
next
  case (18 tc l f fl parent inl s)
  then show ?case
    by (subst visit.simps(18)) (auto simp: Let_def simp del: visitor_simps)
next
  case (20 tc l f fl flt as blk parent inl s)
  then show ?case
    by (subst visit.simps(20)) (auto simp: Let_def simp del: visitor_simps intro!: keeps_then_do split: option.split)
next
  case (21 tc l f nm as blk parent inl s)
  then show ?case
    by (subst visit.simps(21)) (auto simp: Let_def simp del: visitor_simps)
next
  case (24 tc blk inl n ns s)
  then show ?case
    by (subst visitNodes.simps(2)) (auto simp: Let_def simp del: visitor_simps intro!: keeps_then_do)
next
  case (27 tc blk noEscape n ns s)
  then show ?case
    by (subst visitPipelessNodes.simps(2)) (auto simp: Let_def simp del: visitor_simps intro!: keeps_then_do split: node.split)
next
  case (30 tc l f t c a s)
  then show ?case
    by (subst visitConditional.simps(1)) (auto simp: Let_def simp del: visitor_simps intro!: keeps_then_do split: option.split)
next
  case (22 tc blk inl parent s)
  show ?case
  proof (cases "yield blk")
    case True
    then show ?thesis using 22(5) by (subst visitBlock.simps) simp
  next
    case ny: False
    show ?thesis
    proof (cases "nodes blk")
      case None
      then show ?thesis using ny 22(5) by (subst visitBlock.simps) simp
    next
      case (Some ns)
      have sub: "\<forall>n\<in>set ns. subnodes n \<subseteq> b"
        using nodes_subnodes [OF Some 22(6)] by blast
      consider (dot) "useDot blk parent"
        | (colon) "\<not> useDot blk parent" "useColon (options s) blk parent"
        | (plain) "\<not> useDot blk parent" "\<not> useColon (options s) blk parent"
        by blast
      then show ?thesis
      proof cases
        case dot
        then show ?thesis using ny Some 22(1) 22(5,6)
          by (subst visitBlock.simps) (simp add: Let_def del: visitor_simps)
      next
        case colon
        let ?s1 = "(buffer '': '' s) \<lparr> nested := True \<rparr>"
        let ?r = "case ns of [] \<Rightarrow> visit tc None (Some blk) True ?s1
                    | n # rest \<Rightarrow> visit tc (Some n) (Some blk) True ?s1"
        have r: "keeps b (frame_of ?s1) ?r"
        proof (cases ns)
          case Nil
          then show ?thesis by simp
        next
          case (Cons n rest)
          have "\<forall>m\<in>set_option (Some n). subnodes m \<subseteq> b" using sub Cons by simp
          from 22(3) [OF ny Some colon(1) colon(2) refl refl refl Cons refl this]
          show ?thesis using Cons by simp
        qed
        have "keeps b fr (then_do ?r (\<lambda>s2. Done (s2 \<lparr> nested := nested (buffer '': '' s) \<rparr>)))"
          using r
        proof (rule keeps_bracket)
          show "tree_of (frame_of ?s1) = tree_of fr" using 22(5) by auto
        next
          fix s2 assume "frame_of s2 = frame_of ?s1"
          then show "frame_of (s2 \<lparr> nested := nested (buffer '': '' s) \<rparr>) = fr"
            using 22(5) by (auto simp: frame_of_def)
        qed
        then show ?thesis using ny Some colon
          by (subst visitBlock.simps) (simp add: Let_def del: visitor_simps)
      next
        case plain
        let ?s1 = "s \<lparr> indents := indents s + 1 \<rparr>"
        from 22(4) [OF ny Some plain(1) plain(2) refl refl sub]
        have r: "keeps b (frame_of ?s1) (visitNodes tc blk inl ns ?s1)" .
        have "keeps b fr (then_do (visitNodes tc blk inl ns ?s1) (\<lambda>s2. Done (s2 \<lparr> indents := indents s2 - 1 \<rparr>)))"
          using r
        proof (rule keeps_bracket)
          show "tree_of (frame_of ?s1) = tree_of fr" using 22(5) by auto
        next
          fix s2 assume "frame_of s2 = frame_of ?s1"
          then show "frame_of (s2 \<lparr> indents := indents s2 - 1 \<rparr>) = fr"
            using 22(5) by (auto simp: frame_of_def)
        qed
        then show ?thesis using ny Some plain
          by (subst visitBlock.simps) (simp add: Let_def del: visitor_simps)
      qed
    qed
  qed
next
  case (25 tc blk noEscape s)
  show ?case
  proof (cases "nodes blk")
    case None
    then show ?thesis using 25(2)
      by (subst visitPipelessTextBlock.simps) (auto simp: Let_def)
  next
    case (Some ns)
    let ?s1 = "pipeless_enter s"
    have "\<forall>n\<in>set ns. subnodes n \<subseteq> b" using nodes_subnodes [OF Some 25(3)] by blast
    from 25(1) [OF refl refl Some refl this]
    have r: "keeps b (frame_of ?s1) (visitPipelessNodes tc blk noEscape ns ?s1)" .
    have "keeps b fr (then_do (visitPipelessNodes tc blk noEscape ns ?s1)
            (\<lambda>s2. Done (s2 \<lparr> indents := indents s \<rparr>)))"
      using r
    proof (rule keeps_bracket)
      show "tree_of (frame_of ?s1) = tree_of fr" using 25(2) by auto
    next
      fix s2 assume "frame_of s2 = frame_of ?s1"
      then show "frame_of (s2 \<lparr> indents := indents s \<rparr>) = fr"
        using 25(2) by (auto simp: frame_of_def pipeless_enter_def bufLine_def Let_def)
    qed
    then show ?thesis using Some
      by (subst visitPipelessTextBlock.simps) (simp add: Let_def)
  qed
next
  case (28 tc l f v bf es blk inl parent s)
  show ?case
  proof (cases "code_in_text inl parent")
    case (Inl e)
    then show ?thesis using 28(2) code_in_text_error [OF Inl]
      by (subst visitCode.simps(1)) auto
  next
    case (Inr t)
    then show ?thesis using 28
      by (subst visitCode.simps(1))
        (auto simp: Let_def simp del: visitor_simps split: option.split bool.split)
  qed
next
  case (32 tc l f nm as blk inl parent s)
  let ?F = "Filter l f nm as blk"
  let ?s1 = "filter_stub_out inl ('':'' @ nm @ attrs tc (options s) as) s"
  have fr1: "frame_of ?s1 = fr" using 32(4) by simp
  show ?case
  proof (cases blk)
    case None
    then show ?thesis using fr1 by (subst visitFilter.simps(1)) (simp add: Let_def)
  next
    case (Some bk)
    show ?thesis
    proof (cases "nodes bk")
      case None
      then show ?thesis using fr1 Some by (subst visitFilter.simps(1)) (simp add: Let_def)
    next
      case ns: (Some ns)
      have subF: "?F \<in> b" and subk: "subnodes bk \<subseteq> b" using 32(5) Some by simp_all
      have sub: "\<forall>n\<in>set ns. subnodes n \<subseteq> b"
        using nodes_subnodes [OF ns subk] by blast
      let ?body = "case ns of
             [] \<Rightarrow> Done ?s1
           | n # rest \<Rightarrow>
               if ntype n = ''Filter'' then
                 (if length ns > 1 then Throw (InvalidFilterChain ?F) ?s1
                  else
                    (let originalNested = nested ?s1
                     in then_do (visitFilter tc n inl (Some ?F) (?s1 \<lparr> nested := True \<rparr>))
                          (\<lambda>s. Done (s \<lparr> nested := originalNested \<rparr>))))
               else if inl then
                 visit tc blk parent inl (if ntype n = ''Text'' then buffer '' '' ?s1 else ?s1)
               else visitPipelessTextBlock tc bk True ?s1"
      have body: "keeps b fr ?body"
      proof (cases ns)
        case Nil
        then show ?thesis using fr1 by simp
      next
        case (Cons n rest)
        show ?thesis
        proof (cases "ntype n = ''Filter''")
          case isf: True
          show ?thesis
          proof (cases "length ns > 1")
            case True
            then have "malformed_chain ?F"
              using Cons isf Some ns by (cases rest) (simp_all add: malformed_chain_def)
            then show ?thesis using Cons isf True fr1 subF by simp
          next
            case False
            have "subnodes n \<subseteq> b" using sub Cons by simp
            from 32(1) [OF refl refl Some ns Cons isf False refl refl this]
            have r: "keeps b (frame_of (?s1 \<lparr> nested := True \<rparr>))
                       (visitFilter tc n inl (Some ?F) (?s1 \<lparr> nested := True \<rparr>))" .
            have "keeps b fr (then_do (visitFilter tc n inl (Some ?F) (?s1 \<lparr> nested := True \<rparr>))
                       (\<lambda>s2. Done (s2 \<lparr> nested := nested ?s1 \<rparr>)))"
              using r
            proof (rule keeps_bracket)
              show "tree_of (frame_of (?s1 \<lparr> nested := True \<rparr>)) = tree_of fr"
                using fr1 by auto
            next
              fix s2 assume "frame_of s2 = frame_of (?s1 \<lparr> nested := True \<rparr>)"
              then show "frame_of (s2 \<lparr> nested := nested ?s1 \<rparr>) = fr"
                using fr1 by (auto simp: frame_of_def)
            qed
            then show ?thesis using Cons isf False by (simp add: Let_def)
          qed
        next
          case nf: False
          show ?thesis
          proof (cases inl)
            case True
            have "\<forall>n\<in>set_option blk. subnodes n \<subseteq> b" using subk Some by simp
            from 32(2) [OF refl refl Some ns Cons nf True _ this, of fr]
            show ?thesis using Cons nf True fr1 by simp
          next
            case False
            from 32(3) [OF refl refl Some ns Cons nf False fr1 subk]
            show ?thesis using Cons nf False by simp
          qed
        qed
      qed
      have "keeps b fr (then_do ?body (\<lambda>s. Done (close_bracket inl s)))"
        using body by (rule keeps_then_do) simp
      then show ?thesis unfolding Some ns
        by (subst visitFilter.simps(1)) (simp only: Let_def option.case ns)
    qed
  qed
qed auto

lemma visit_frame:
  "keeps UNIV (frame_of s) (visit tc no parent inl s)"
  "keeps UNIV (frame_of s) (visitBlock tc blk inl parent s)"
  "keeps UNIV (frame_of s) (visitNodes tc blk inl ns s)"
  "keeps UNIV (frame_of s) (visitPipelessTextBlock tc blk noEscape s)"
  "keeps UNIV (frame_of s) (visitPipelessNodes tc blk noEscape ns s)"
  "keeps UNIV (frame_of s) (visitCode tc n inl parent s)"
  "keeps UNIV (frame_of s) (visitConditional tc n s)"
  "keeps UNIV (frame_of s) (visitFilter tc n inl parent s)"
  by (rule visit_keeps; simp)+

section \<open>The indentation depth is restored\<close>

lemma keeps_Done_indents:
  "keeps b (frame_of s) r \<Longrightarrow> r = Done s' \<Longrightarrow> indents s' = indents s"
  by (simp add: frame_of_def)

text \<open>C10.  Whenever \<open>visit\<close> returns, \<open>indents\<close> is what it was on entry, for every
  node, parent, inline flag and starting state; and so for the handlers that are
  called directly, \<open>visitBlock\<close>, \<open>visitPipelessTextBlock\<close>, \<open>visitCode\<close> (with its
  multi-line branch), \<open>visitConditional\<close> and \<open>visitFilter\<close>.  The same holds for the
  two loops over the children of a block, from any child on: every sibling is
  visited at the depth at which the first one was.\<close>

theorem visit_restores_indents:
  "(visit tc no parent inl s = Done s' \<longrightarrow> indents s' = indents s)
   \<and> (visitBlock tc blk inl parent s = Done s' \<longrightarrow> indents s' = indents s)
   \<and> (visitPipelessTextBlock tc blk noEscape s = Done s' \<longrightarrow> indents s' = indents s)
   \<and> (visitCode tc n inl parent s = Done s' \<longrightarrow> indents s' = indents s)
   \<and> (visitConditional tc n s = Done s' \<longrightarrow> indents s' = indents s)
   \<and> (visitFilter tc n inl parent s = Done s' \<longrightarrow> indents s' = indents s)
   \<and> (visitNodes tc blk inl ns s = Done s' \<longrightarrow> indents s' = indents s)
   \<and> (visitPipelessNodes tc blk noEscape ns s = Done s' \<longrightarrow> indents s' = indents s)"
  using visit_frame(1) [of s tc no parent inl] visit_frame(2) [of s tc blk inl parent]
    visit_frame(4) [of s tc blk noEscape] visit_frame(6) [of s tc n inl parent]
    visit_frame(7) [of s tc n] visit_frame(8) [of s tc n inl parent]
    visit_frame(3) [of s tc blk inl ns] visit_frame(5) [of s tc blk noEscape ns]
  by (auto dest: keeps_Done_indents)

theorem visit_restores_indents_witness:
  "\<exists>s'. visit no_constants (Some deep_tag) None False at_depth_3 = Done s'
        \<and> indents s' = 3
        \<and> buf s' = ['''', ''      ul'', ''        li'', ''        -'', ''          a'' @ [newline] @ ''          b'']"
proof -
  have "\<exists>s'. visit no_constants (Some deep_tag) None False at_depth_3 = Done s'
        \<and> buf s' = ['''', ''      ul'', ''        li'', ''        -'', ''          a'' @ [newline] @ ''          b'']"
    by (simp add: deep_tag_def at_depth_3_def Compiler_def defaultOptions_def tag_stub_def
        tag_stub_out_def close_bracket_def attrs_def attributeBlocks_def bufLine_def buffer_def
        indent_def repeat_def node_inline_def space_before_def useColon_def useDot_def
        then_do_def code_in_text_def code_out_def visitPipelessText_def dollar_def
        escape_interp.simps newline_def backslash_def Let_def eval_nat_numeral)
  then obtain s' where s': "visit no_constants (Some deep_tag) None False at_depth_3 = Done s'"
    and b: "buf s' = ['''', ''      ul'', ''        li'', ''        -'', ''          a'' @ [newline] @ ''          b'']"
    by blast
  have "indents s' = indents at_depth_3"
    using visit_restores_indents [of no_constants "Some deep_tag" None False at_depth_3 s'] s'
    by simp
  then have "indents s' = 3" by (simp add: at_depth_3_def)
  then show ?thesis using s' b by blast
qed

section \<open>The visitor leaves the tree alone\<close>

lemma leaves_simps [simp]:
  "leaves h None" "leaves h (Some (x, h')) \<longleftrightarrow> h' = h"
  by (simp_all add: leaves_def)

lemma leaves_then_doS:
  assumes "leaves h r" and "\<And>s. leaves h (k s h)"
  shows "leaves h (then_doS r k)"
proof (cases r)
  case None
  then show ?thesis by (simp add: then_doS_def)
next
  case (Some a)
  obtain x h' where a: "a = (x, h')" by (cases a)
  then have "h' = h" using assms(1) Some by simp
  then show ?thesis using Some a assms(2) by (cases x) (simp_all add: then_doS_def)
qed

lemma read_onlyD:
  assumes "read_only this"
  shows "leaves h (visitS this h p parent inl s)"
    "leaves h (visitBlockS this h p inl parent s)"
    "leaves h (visitPipelessTextBlockS this h p noEscape s)"
    "leaves h (visitCodeS this h p inl parent s)"
    "leaves h (visitConditionalS this h p s)"
    "leaves h (visitFilterS this h p inl parent s)"
  using assms by (simp_all add: read_only_def)

lemma leaves_block_loop:
  "read_only this \<Longrightarrow> leaves h (block_loop this p inl prevNode idx s h)"
  by (induction idx arbitrary: prevNode s)
    (auto intro!: leaves_then_doS read_onlyD split: option.split)

lemma leaves_pipeless_loop:
  "read_only this \<Longrightarrow> leaves h (pipeless_loop this p noEscape idx s h)"
  by (induction idx arbitrary: s)
    (auto intro!: leaves_then_doS read_onlyD split: option.split node.split)

lemma leaves_visit_on:
  "read_only this \<Longrightarrow> leaves h (visit_on tc this h p parent inl s)"
  unfolding visit_on_def
  by (auto simp: Let_def intro!: leaves_then_doS read_onlyD split: option.split node.split)

lemma leaves_visitBlock_on:
  "read_only this \<Longrightarrow> leaves h (visitBlock_on this h p inl parent s)"
  unfolding visitBlock_on_def
  by (auto simp: Let_def intro!: leaves_then_doS read_onlyD leaves_block_loop split: option.split)

lemma leaves_visitPipelessTextBlock_on:
  "read_only this \<Longrightarrow> leaves h (visitPipelessTextBlock_on this h p noEscape s)"
  unfolding visitPipelessTextBlock_on_def
  by (auto simp: Let_def intro!: leaves_then_doS leaves_pipeless_loop split: option.split)

lemma leaves_visitCode_on:
  "read_only this \<Longrightarrow> leaves h (visitCode_on this h p inl parent s)"
  unfolding visitCode_on_def
  by (auto simp: Let_def intro!: read_onlyD split: option.split node.split sum.split bool.split)

lemma leaves_visitConditional_on:
  "read_only this \<Longrightarrow> leaves h (visitConditional_on this h p s)"
  unfolding visitConditional_on_def
  by (auto simp: Let_def intro!: leaves_then_doS read_onlyD split: option.split node.split)

lemma leaves_visitFilter_on:
  "read_only this \<Longrightarrow> leaves h (visitFilter_on tc this h p inl parent s)"
  unfolding visitFilter_on_def
  by (auto simp: Let_def intro!: leaves_then_doS read_onlyD
      split: option.split node.split list.split)

lemma read_only_generator: "read_only (generator tc k)"
proof (induction k)
  case 0
  show ?case by (simp add: read_only_def)
next
  case (Suc k)
  then show ?case
    by (simp add: read_only_def leaves_visit_on leaves_visitBlock_on
        leaves_visitPipelessTextBlock_on leaves_visitCode_on leaves_visitConditional_on
        leaves_visitFilter_on)
qed

lemma agrees_simps [simp]:
  "agrees h None x" "agrees h (Some (y, h')) x \<longleftrightarrow> y = x \<and> h' = h"
  by (simp_all add: agrees_def)

lemma agrees_then_doS:
  assumes "agrees h r x" and "\<And>s. agrees h (k s h) (k' s)"
  shows "agrees h (then_doS r k) (then_do x k')"
proof (cases r)
  case None
  then show ?thesis by (simp add: then_doS_def)
next
  case (Some a)
  obtain y h' where a: "a = (y, h')" by (cases a)
  then have "h' = h" "y = x" using assms(1) Some by simp_all
  then show ?thesis using Some a assms(2) by (cases x) (simp_all add: then_doS_def then_do_def)
qed

lemma faithfulD:
  assumes "faithful tc this"
  shows "deref h p = no \<Longrightarrow> deref_opt h parent = pn \<Longrightarrow>
           agrees h (visitS this h p parent inl s) (visit tc no pn inl s)"
    "deref h p = Some blk \<Longrightarrow> deref_opt h parent = pn \<Longrightarrow>
           agrees h (visitBlockS this h p inl parent s) (visitBlock tc blk inl pn s)"
    "deref h p = Some blk \<Longrightarrow>
           agrees h (visitPipelessTextBlockS this h p noEscape s)
             (visitPipelessTextBlock tc blk noEscape s)"
    "deref h p = None \<Longrightarrow>
           agrees h (visitPipelessTextBlockS this h p noEscape s)
             (Throw NativeTypeError (pipeless_enter s))"
    "deref h p = Some n \<Longrightarrow> deref_opt h parent = pn \<Longrightarrow>
           agrees h (visitCodeS this h p inl parent s) (visitCode tc n inl pn s)"
    "deref h p = Some n \<Longrightarrow>
           agrees h (visitConditionalS this h p s) (visitConditional tc n s)"
    "deref h p = Some n \<Longrightarrow> deref_opt h parent = pn \<Longrightarrow>
           agrees h (visitFilterS this h p inl parent s) (visitFilter tc n inl pn s)"
  using assms by (auto simp: faithful_def simp del: visitor_simps)

lemma deref_snoc:
  "deref h (p @ [i]) =
     (case deref h p of
        None \<Rightarrow> None
      | Some n \<Rightarrow> if i < length (refs_of n) then refs_of n ! i else None)"
  by (induction p arbitrary: h) (auto split: option.split)

lemma deref_snoc2:
  "deref h (p @ [i, j]) =
     (case deref h (p @ [i]) of
        None \<Rightarrow> None
      | Some n \<Rightarrow> if j < length (refs_of n) then refs_of n ! j else None)"
  using deref_snoc [of h "p @ [i]" j] by simp

lemma fields_nodes: "nodes blk = Some ns \<Longrightarrow> refs_of blk = map Some ns"
  by (cases blk) simp_all

lemma deref_opt_simps [simp]:
  "deref_opt h None = None" "deref_opt h (Some p) = deref h p"
  by (simp_all add: deref_opt_def)

lemma block_loop_agrees:
  assumes f: "faithful tc this" and b: "deref h p = Some blk" and n: "nodes blk = Some ns"
  shows "i \<le> length ns \<Longrightarrow> (i = 0 \<longrightarrow> inl' = inl) \<Longrightarrow>
     (0 < i \<longrightarrow> deref_opt h prev = Some (ns ! (i - 1)) \<and>
        (i < length ns \<longrightarrow> inl' = (line (ns ! (i - 1)) = line (ns ! i)))) \<Longrightarrow>
     agrees h (block_loop this p inl prev [i..<length ns] s h) (visitNodes tc blk inl' (drop i ns) s)"
proof (induction "length ns - i" arbitrary: i prev inl' s)
  case 0
  then show ?case by (simp del: visitor_simps add: visitNodes.simps(1) visitPipelessNodes.simps(1))
next
  case (Suc d)
  then have lt: "i < length ns" by simp
  have el: "deref h (p @ [i]) = Some (ns ! i)"
    using lt b fields_nodes [OF n] by (simp add: deref_snoc)
  have inl_eq: "(if i = 0 then inl else same_line (deref_opt h prev) (ns ! i)) = inl'"
    using Suc.prems lt by (auto simp: same_line_def)
  have idx: "[i..<length ns] = i # [Suc i..<length ns]" using lt by (simp add: upt_conv_Cons)
  have dr: "drop i ns = ns ! i # drop (Suc i) ns" using lt by (simp add: Cons_nth_drop_Suc)
  let ?inl2 = "case drop (Suc i) ns of [] \<Rightarrow> False | m # ms \<Rightarrow> line (ns ! i) = line m"
  have next_inl: "Suc i < length ns \<longrightarrow> ?inl2 = (line (ns ! i) = line (ns ! Suc i))"
    by (auto simp: Cons_nth_drop_Suc [symmetric])
  have step: "agrees h (block_loop this p inl (Some (p @ [i])) [Suc i..<length ns] s' h)
                (visitNodes tc blk ?inl2 (drop (Suc i) ns) s')" for s'
    using Suc.hyps(2) lt el next_inl by (intro Suc.hyps(1)) auto
  have first: "agrees h (visitS this h (p @ [i]) (Some p) inl' s) (visit tc (Some (ns ! i)) (Some blk) inl' s)"
    using el b by (intro faithfulD(1) [OF f]) simp_all
  show ?case
    unfolding idx dr
    by (subst visitNodes.simps(2))
      (use first step in \<open>simp add: el inl_eq agrees_then_doS del: upt_Suc visitor_simps\<close>)
qed

lemma pipeless_loop_agrees:
  assumes f: "faithful tc this" and b: "deref h p = Some blk" and n: "nodes blk = Some ns"
  shows "i \<le> length ns \<Longrightarrow>
     agrees h (pipeless_loop this p noEscape [i..<length ns] s h)
       (visitPipelessNodes tc blk noEscape (drop i ns) s)"
proof (induction "length ns - i" arbitrary: i s)
  case 0
  then show ?case by (simp del: visitor_simps add: visitNodes.simps(1) visitPipelessNodes.simps(1))
next
  case (Suc d)
  then have lt: "i < length ns" by simp
  have el: "deref h (p @ [i]) = Some (ns ! i)"
    using lt b fields_nodes [OF n] by (simp add: deref_snoc)
  have idx: "[i..<length ns] = i # [Suc i..<length ns]" using lt by (simp add: upt_conv_Cons)
  have dr: "drop i ns = ns ! i # drop (Suc i) ns" using lt by (simp add: Cons_nth_drop_Suc)
  have step: "agrees h (pipeless_loop this p noEscape [Suc i..<length ns] s' h)
                (visitPipelessNodes tc blk noEscape (drop (Suc i) ns) s')" for s'
    using Suc.hyps(2) lt by (intro Suc.hyps(1)) auto
  have first: "agrees h (visitS this h (p @ [i]) (Some p) True s) (visit tc (Some (ns ! i)) (Some blk) True s)"
    using el b by (intro faithfulD(1) [OF f]) simp_all
  show ?case
    unfolding idx dr
    by (subst visitPipelessNodes.simps(2), cases "ns ! i")
      (use first step in \<open>simp_all add: el agrees_then_doS del: upt_Suc visitor_simps\<close>)
qed

lemmas handler_simps =
  visitBlock.simps visitNodes.simps visitPipelessTextBlock.simps
  visitPipelessNodes.simps visitCode.simps visitConditional.simps visitFilter.simps

lemma visit_on_agrees:
  assumes f: "faithful tc this"
  shows "agrees h (visit_on tc this h p parent inl s) (visit tc (deref h p) (deref_opt h parent) inl s)"
proof (cases "deref h p")
  case None
  then show ?thesis by (simp add: visit_on_def)
next
  case (Some n)
  note fD = faithfulD [OF f]
  show ?thesis
    unfolding visit_on_def Some
    by (cases n)
      (auto simp: Let_def deref_snoc Some simp del: handler_simps
        intro!: agrees_then_doS fD split: option.split)
qed

lemma visitBlock_on_agrees:
  assumes f: "faithful tc this" and b: "deref h p = Some blk"
  shows "agrees h (visitBlock_on this h p inl parent s) (visitBlock tc blk inl (deref_opt h parent) s)"
proof (cases "nodes blk")
  case None
  then show ?thesis using b
    by (subst visitBlock.simps) (simp add: visitBlock_on_def del: visitor_simps)
next
  case (Some ns)
  note fD = faithfulD [OF f]
  have first: "deref h (p @ [0]) = (case ns of [] \<Rightarrow> None | n # rest \<Rightarrow> Some n)"
    using b fields_nodes [OF Some] by (cases ns) (simp_all add: deref_snoc)
  have colon: "agrees h (visitS this h (p @ [0]) (Some p) True s1)
                 (case ns of [] \<Rightarrow> visit tc None (Some blk) True s1
                  | n # rest \<Rightarrow> visit tc (Some n) (Some blk) True s1)" for s1
    using first b by (cases ns) (auto intro!: fD simp del: visitor_simps)
  have loop: "agrees h (block_loop this p inl parent [0..<length ns] s1 h)
                (visitNodes tc blk inl ns s1)" for s1
    using block_loop_agrees [OF f b Some, of 0 inl inl parent s1] by simp
  have dot: "agrees h (visitPipelessTextBlockS this h p False s1)
               (visitPipelessTextBlock tc blk False s1)" for s1
    using b by (rule fD)
  show ?thesis
    by (subst visitBlock.simps)
      (use b Some colon loop dot in
        \<open>auto simp: visitBlock_on_def Let_def simp del: visitor_simps intro!: agrees_then_doS\<close>)
qed

lemma visitPipelessTextBlock_on_agrees:
  assumes f: "faithful tc this"
  shows "deref h p = Some blk \<Longrightarrow>
           agrees h (visitPipelessTextBlock_on this h p noEscape s)
             (visitPipelessTextBlock tc blk noEscape s)"
    and "deref h p = None \<Longrightarrow>
           agrees h (visitPipelessTextBlock_on this h p noEscape s)
             (Throw NativeTypeError (pipeless_enter s))"
proof -
  show "agrees h (visitPipelessTextBlock_on this h p noEscape s)
          (Throw NativeTypeError (pipeless_enter s))" if "deref h p = None"
    using that by (simp add: visitPipelessTextBlock_on_def Let_def)
  show "agrees h (visitPipelessTextBlock_on this h p noEscape s)
          (visitPipelessTextBlock tc blk noEscape s)" if b: "deref h p = Some blk"
  proof (cases "nodes blk")
    case None
    then show ?thesis using b
      by (subst visitPipelessTextBlock.simps)
        (simp add: visitPipelessTextBlock_on_def Let_def del: visitor_simps)
  next
    case (Some ns)
    have loop: "agrees h (pipeless_loop this p noEscape [0..<length ns] s1 h)
                  (visitPipelessNodes tc blk noEscape ns s1)" for s1
      using pipeless_loop_agrees [OF f b Some, of 0 noEscape s1] by simp
    show ?thesis
      by (subst visitPipelessTextBlock.simps)
        (use b Some loop in
          \<open>auto simp: visitPipelessTextBlock_on_def Let_def simp del: visitor_simps
             intro!: agrees_then_doS\<close>)
  qed
qed

lemma visitCode_on_agrees:
  assumes f: "faithful tc this" and b: "deref h p = Some n"
  shows "agrees h (visitCode_on this h p inl parent s) (visitCode tc n inl (deref_opt h parent) s)"
proof -
  note fD = faithfulD [OF f]
  show ?thesis
    unfolding visitCode_on_def b
    by (cases n)
      (auto simp: Let_def deref_snoc b simp del: visit.simps visitBlock.simps visitNodes.simps
          visitPipelessTextBlock.simps visitPipelessNodes.simps visitConditional.simps
          visitFilter.simps
        intro!: fD split: option.split sum.split bool.split)
qed

lemma visitConditional_on_agrees:
  assumes f: "faithful tc this" and b: "deref h p = Some n"
  shows "agrees h (visitConditional_on this h p s) (visitConditional tc n s)"
proof -
  note fD = faithfulD [OF f]
  show ?thesis
    unfolding visitConditional_on_def b
    by (cases n)
      (auto simp: Let_def deref_snoc b simp del: visit.simps visitBlock.simps visitNodes.simps
          visitPipelessTextBlock.simps visitPipelessNodes.simps visitCode.simps
          visitFilter.simps
        intro!: agrees_then_doS fD split: option.split)
qed

lemma visitFilter_on_agrees:
  assumes f: "faithful tc this" and b: "deref h p = Some n"
  shows "agrees h (visitFilter_on tc this h p inl parent s) (visitFilter tc n inl (deref_opt h parent) s)"
proof -
  note fD = faithfulD [OF f]
  show ?thesis
    unfolding visitFilter_on_def b
    by (cases n)
      (auto simp: Let_def deref_snoc deref_snoc2 b fields_nodes
          simp del: visit.simps visitBlock.simps visitNodes.simps
          visitPipelessTextBlock.simps visitPipelessNodes.simps visitCode.simps
          visitConditional.simps
        intro!: agrees_then_doS fD split: option.split list.split)
qed

lemma faithful_generator: "faithful tc (generator tc k)"
proof (induction k)
  case 0
  show ?case by (simp add: faithful_def del: visitor_simps)
next
  case (Suc k)
  show ?case
    unfolding faithful_def
    using visit_on_agrees [OF Suc] visitBlock_on_agrees [OF Suc]
      visitPipelessTextBlock_on_agrees [OF Suc] visitCode_on_agrees [OF Suc]
      visitConditional_on_agrees [OF Suc] visitFilter_on_agrees [OF Suc]
    by (simp del: visitor_simps)
qed

lemma deep_enoughD:
  assumes "deep_enough this k"
  shows "weight h p + 3 \<le> k \<Longrightarrow> ends (visitS this h p parent inl s)"
    "weight h p + 2 \<le> k \<Longrightarrow> ends (visitBlockS this h p inl parent s)"
    "weight h p + 1 \<le> k \<Longrightarrow> ends (visitPipelessTextBlockS this h p noEscape s)"
    "weight h p + 2 \<le> k \<Longrightarrow> ends (visitCodeS this h p inl parent s)"
    "weight h p + 2 \<le> k \<Longrightarrow> ends (visitConditionalS this h p s)"
    "weight h p + 2 \<le> k \<Longrightarrow> ends (visitFilterS this h p inl parent s)"
  using assms by (simp_all add: deep_enough_def)

lemma ends_simps [simp]: "ends (Some x)" "\<not> ends None"
  by (simp_all add: ends_def)

lemma then_doS_ends:
  assumes "ends r" and "leaves h r" and "\<And>s. ends (k s h)"
  shows "ends (then_doS r k)"
proof -
  obtain x h' where r: "r = Some (x, h')" using assms(1) by (cases r) auto
  then have "h' = h" using assms(2) by simp
  then show ?thesis using r assms(3) by (cases x) (simp_all add: then_doS_def)
qed

lemma size_option_child:
  assumes "i < length (refs_of n)"
  shows "size_option size (refs_of n ! i) \<le> size n"
proof -
  have el: "Suc (size (ns ! i)) \<le> size_list size ns" if "i < length ns" for ns :: "node list"
  proof -
    have "ns ! i \<in> set ns" using that by simp
    then have "size (ns ! i) < size_list size ns" by (rule size_list_member)
    then show ?thesis by simp
  qed
  show ?thesis
  proof (cases n)
    case (Block l f y ns)
    then show ?thesis using assms el [of ns] by simp
  next
    case (NamedBlock l f nm md y ns)
    then show ?thesis using assms el [of ns] by simp
  qed (use assms in \<open>auto simp: less_Suc_eq\<close>)
qed

lemma weight_child:
  assumes "deref h p = Some n" and "0 < size n"
  shows "weight h (p @ [i]) + 5 \<le> weight h p"
proof -
  have "size_option size (deref h (p @ [i])) \<le> size n"
    using assms size_option_child [of i n] by (simp add: deref_snoc)
  then show ?thesis using assms by (simp add: weight_def)
qed

lemma weight_grandchild:
  assumes "deref h p = Some n" and "0 < size n"
  shows "weight h (p @ [i, j]) + 5 \<le> weight h p"
proof (cases "deref h (p @ [i])")
  case None
  then have "deref h (p @ [i, j]) = None" by (simp add: deref_snoc2)
  then show ?thesis using assms by (simp add: weight_def)
next
  case (Some c)
  have c: "weight h (p @ [i]) + 5 \<le> weight h p" using assms by (rule weight_child)
  show ?thesis
  proof (cases "0 < size c")
    case True
    have "weight h ((p @ [i]) @ [j]) + 5 \<le> weight h (p @ [i])" using Some True by (rule weight_child)
    then show ?thesis using c by simp
  next
    case False
    then have "refs_of c = []" by (cases c) simp_all
    then have "deref h (p @ [i, j]) = None" using Some by (simp add: deref_snoc2)
    then show ?thesis using c Some by (simp add: weight_def)
  qed
qed

lemma block_loop_ends:
  assumes ro: "read_only this" and d: "deep_enough this k" and b: "deref h p = Some n"
    and pos: "0 < size n" and k: "weight h p \<le> k + 2"
  shows "ends (block_loop this p inl prevNode idx s h)"
proof (induction idx arbitrary: prevNode s)
  case Nil
  show ?case by simp
next
  case (Cons i rest)
  have "weight h (p @ [i]) + 3 \<le> k" using weight_child [OF b pos, of i] k by simp
  then have "ends (visitS this h (p @ [i]) (Some p) inl' s)" for inl'
    by (rule deep_enoughD(1) [OF d])
  then show ?case
    using Cons.IH read_onlyD(1) [OF ro]
    by (auto intro!: then_doS_ends split: option.split)
qed

lemma pipeless_loop_ends:
  assumes ro: "read_only this" and d: "deep_enough this k" and b: "deref h p = Some n"
    and pos: "0 < size n" and k: "weight h p \<le> k + 2"
  shows "ends (pipeless_loop this p noEscape idx s h)"
proof (induction idx arbitrary: s)
  case Nil
  show ?case by simp
next
  case (Cons i rest)
  have "weight h (p @ [i]) + 3 \<le> k" using weight_child [OF b pos, of i] k by simp
  then have "ends (visitS this h (p @ [i]) (Some p) True s)"
    by (rule deep_enoughD(1) [OF d])
  then show ?case
    using Cons.IH read_onlyD(1) [OF ro]
    by (auto intro!: then_doS_ends split: option.split node.split)
qed

lemma visit_on_ends:
  assumes ro: "read_only this" and d: "deep_enough this k" and w: "weight h p + 3 \<le> Suc k"
  shows "ends (visit_on tc this h p parent inl s)"
proof (cases "deref h p")
  case None
  then show ?thesis by (simp add: visit_on_def)
next
  case (Some n)
  have wc: "0 < size n \<Longrightarrow> weight h (p @ [0]) + 5 \<le> weight h p"
    "0 < size n \<Longrightarrow> weight h (p @ [1]) + 5 \<le> weight h p"
    using weight_child [OF Some] by simp_all
  show ?thesis
    unfolding visit_on_def Some
    by (cases n)
      (use w wc Some in \<open>auto simp: Let_def
         intro!: then_doS_ends deep_enoughD [OF d] read_onlyD [OF ro] split: option.split\<close>)
qed

lemma visitBlock_on_ends:
  assumes ro: "read_only this" and d: "deep_enough this k" and w: "weight h p + 2 \<le> Suc k"
  shows "ends (visitBlock_on this h p inl parent s)"
proof (cases "deref h p")
  case None
  then show ?thesis by (simp add: visitBlock_on_def)
next
  case (Some n)
  show ?thesis
  proof (cases "nodes n")
    case None
    then show ?thesis using Some by (simp add: visitBlock_on_def)
  next
    case ns: (Some ns)
    then have pos: "0 < size n" by (cases n) simp_all
    have wc: "weight h (p @ [0]) + 5 \<le> weight h p" using weight_child [OF Some pos] .
    have loop: "ends (block_loop this p inl parent idx s1 h)" for idx s1
      using ro d Some pos by (rule block_loop_ends) (use w in simp)
    show ?thesis
      unfolding visitBlock_on_def Some
      using w wc ns loop
      by (auto simp: Let_def
          intro!: then_doS_ends deep_enoughD [OF d] read_onlyD [OF ro] leaves_block_loop [OF ro])
  qed
qed

lemma visitPipelessTextBlock_on_ends:
  assumes ro: "read_only this" and d: "deep_enough this k" and w: "weight h p + 1 \<le> Suc k"
  shows "ends (visitPipelessTextBlock_on this h p noEscape s)"
proof (cases "deref h p")
  case None
  then show ?thesis by (simp add: visitPipelessTextBlock_on_def Let_def)
next
  case (Some n)
  show ?thesis
  proof (cases "nodes n")
    case None
    then show ?thesis using Some by (simp add: visitPipelessTextBlock_on_def Let_def)
  next
    case ns: (Some ns)
    then have pos: "0 < size n" by (cases n) simp_all
    have wp: "5 \<le> weight h p" using Some pos by (simp add: weight_def)
    have loop: "ends (pipeless_loop this p noEscape idx s1 h)" for idx s1
      using ro d Some pos by (rule pipeless_loop_ends) (use w in simp)
    show ?thesis
      unfolding visitPipelessTextBlock_on_def Some
      using ns loop
      by (auto simp: Let_def intro!: then_doS_ends leaves_pipeless_loop [OF ro])
  qed
qed

lemma visitCode_on_ends:
  assumes ro: "read_only this" and d: "deep_enough this k" and w: "weight h p + 2 \<le> Suc k"
  shows "ends (visitCode_on this h p inl parent s)"
proof (cases "deref h p")
  case None
  then show ?thesis by (simp add: visitCode_on_def)
next
  case (Some n)
  have wc: "0 < size n \<Longrightarrow> weight h (p @ [0]) + 5 \<le> weight h p"
    using weight_child [OF Some] by simp
  show ?thesis
    unfolding visitCode_on_def Some
    by (cases n)
      (use w wc Some in \<open>auto simp: Let_def
         intro!: deep_enoughD [OF d] split: option.split sum.split bool.split\<close>)
qed

lemma visitConditional_on_ends:
  assumes ro: "read_only this" and d: "deep_enough this k" and w: "weight h p + 2 \<le> Suc k"
  shows "ends (visitConditional_on this h p s)"
proof (cases "deref h p")
  case None
  then show ?thesis by (simp add: visitConditional_on_def)
next
  case (Some n)
  have wc: "0 < size n \<Longrightarrow> weight h (p @ [0]) + 5 \<le> weight h p"
    "0 < size n \<Longrightarrow> weight h (p @ [1]) + 5 \<le> weight h p"
    using weight_child [OF Some] by simp_all
  show ?thesis
    unfolding visitConditional_on_def Some
    by (cases n)
      (use w wc Some in \<open>auto simp: Let_def
         intro!: then_doS_ends deep_enoughD [OF d] read_onlyD [OF ro] split: option.split\<close>)
qed

lemma visitFilter_on_ends:
  assumes ro: "read_only this" and d: "deep_enough this k" and w: "weight h p + 2 \<le> Suc k"
  shows "ends (visitFilter_on tc this h p inl parent s)"
proof (cases "deref h p")
  case None
  then show ?thesis by (simp add: visitFilter_on_def)
next
  case (Some n)
  have wc: "0 < size n \<Longrightarrow> weight h (p @ [0]) + 5 \<le> weight h p"
    "0 < size n \<Longrightarrow> weight h (p @ [0, 0]) + 5 \<le> weight h p"
    using weight_child [OF Some] weight_grandchild [OF Some] by simp_all
  show ?thesis
    unfolding visitFilter_on_def Some
    by (cases n)
      (use w wc Some in \<open>auto simp: Let_def
         intro!: then_doS_ends [where h = h] leaves_then_doS [where h = h]
           deep_enoughD [OF d] read_onlyD [OF ro]
         split: option.split list.split\<close>)
qed

lemma deep_enough_generator: "deep_enough (generator tc k) k"
proof (induction k)
  case 0
  show ?case by (simp add: deep_enough_def)
next
  case (Suc k)
  note ro = read_only_generator [of tc k]
  show ?case
    unfolding deep_enough_def
    using visit_on_ends [OF ro Suc] visitBlock_on_ends [OF ro Suc]
      visitPipelessTextBlock_on_ends [OF ro Suc] visitCode_on_ends [OF ro Suc]
      visitConditional_on_ends [OF ro Suc] visitFilter_on_ends [OF ro Suc]
    by simp
qed

lemma nested_block_plain: "nested_block c = plain_block c"
  by (simp add: plain_block_def nested_block_def)

lemma contents_of_the_nodes: "nested_block c \<Longrightarrow> contents_of (cleanUpAST c) = the_nodes (cleanUpAST c)"
  by (cases c) (simp_all add: the_nodes_def nested_block_def)

lemma the_nodes_fixed:
  assumes "no_nested_block t"
  shows "map cleanUpAST (the_nodes t) = the_nodes t"
proof -
  have "no_nested_block x" if "x \<in> set (the_nodes t)" for x
    using assms that by (cases t) (auto simp: the_nodes_def list_all_iff)
  then show ?thesis by (simp add: cleanUpAST_fixed map_idI)
qed

lemma cleanUpAST_Block:
  "cleanUpAST (Block l f y ns) =
     Block l f y
       (concat (map (\<lambda>c. if nested_block c then contents_of (cleanUpAST c) else [cleanUpAST c]) ns))"
proof -
  have "map cleanUpAST (if plain_block c then the_nodes (cleanUpAST c) else [c])
          = (if nested_block c then contents_of (cleanUpAST c) else [cleanUpAST c])" for c
    using the_nodes_fixed [OF cleanUpAST_no_nested_block [of c]]
    by (simp add: nested_block_plain [symmetric] contents_of_the_nodes)
  then show ?thesis
    by (simp add: flatten_blocks_eq map_concat o_def)
qed

lemma cleanUpAST_settled: "settled c \<Longrightarrow> cleanUpAST c = c"
  by (simp add: settled_def cleanUpAST_fixed)

lemma concat_settled:
  "list_all settled xs \<Longrightarrow>
   concat (map (\<lambda>c. if nested_block c then contents_of (cleanUpAST c) else [cleanUpAST c]) xs) = xs"
  by (induction xs) (simp_all add: cleanUpAST_settled, simp add: settled_def)

lemma cleanUpAST_splice:
  assumes "list_all settled (before @ inner @ after)"
  shows "cleanUpAST (Block l f y (before @ [Block l' f' False inner] @ after)) =
           Block l f y (before @ inner @ after)"
proof -
  have b: "list_all settled before" and i: "list_all settled inner" and a: "list_all settled after"
    using assms by simp_all
  have "cleanUpAST (Block l' f' False inner) = Block l' f' False inner"
    unfolding cleanUpAST_Block using concat_settled [OF i] by simp
  then show ?thesis
    unfolding cleanUpAST_Block [of l f y] using concat_settled [OF b] concat_settled [OF a]
    by (simp add: nested_block_def)
qed

lemma leaves_compileS:
  "compileS k tc c = Some (out, h') \<Longrightarrow> h' = node c"
  using read_onlyD(1) [OF read_only_generator [of tc k], of "node c" "[]" None False "c \<lparr> buf := [] \<rparr>"]
  by (auto simp: compileS_def leaves_def split: option.splits result.splits prod.splits)

lemma visitS_run:
  assumes "weight h p + 3 \<le> k"
  shows "visitS (generator tc k) h p parent inl s
           = Some (visit tc (deref h p) (deref_opt h parent) inl s, h)"
proof -
  have "ends (visitS (generator tc k) h p parent inl s)"
    using assms by (rule deep_enoughD(1) [OF deep_enough_generator])
  moreover have "agrees h (visitS (generator tc k) h p parent inl s)
                   (visit tc (deref h p) (deref_opt h parent) inl s)"
    by (rule faithfulD(1) [OF faithful_generator]) simp_all
  ultimately show ?thesis
    by (cases "visitS (generator tc k) h p parent inl s") (auto simp del: visitor_simps)
qed

lemma compileS_run:
  assumes "weight (node c) [] + 3 \<le> k"
  shows "compileS k tc c = Some (compile tc c, node c)"
  using visitS_run [OF assms, of tc None False "c \<lparr> buf := [] \<rparr>"]
  by (simp add: compileS_def compile_def split: result.split del: visitor_simps)

text \<open>C9.  The visitor never writes a node.  With the tree as the store and every node
  read through its reference, a run of \<open>visit\<close> or of a handler that ends, returning
  or throwing and at whatever depth of calls, leaves the store it was given: every
  field of every node and every \<open>nodes\<close> array is what it was.  A depth that grows
  with the size of the node is enough for the run to end, and the run then gives what
  \<open>visit\<close> gives on the node itself.  So the run of \<open>compile\<close> on a new compiler ends
  with the result of \<open>generateCode\<close> and with the tree as the normalizer made it.

  The rewrite of \<open>nodes\<close> is the normalizer's, and it keeps the order of the siblings:
  the new children of a \<open>Block\<close> are, child by child and in the order of the children,
  the normalized child itself, or, for a child that is a \<open>Block\<close> and no \<open>yield\<close>
  placeholder, the children of the normalized child.  Where the siblings before and
  after such a child and its own children need no normalizing, the new children are
  those before it, its children, and those after it, as they were.\<close>

theorem visitor_keeps_tree:
  "(visitS (generator tc k) h p parent inl s = Some (r, h') \<longrightarrow> h' = h)
   \<and> (visitBlockS (generator tc k) h p inl parent s = Some (r, h') \<longrightarrow> h' = h)
   \<and> (visitPipelessTextBlockS (generator tc k) h p noEscape s = Some (r, h') \<longrightarrow> h' = h)
   \<and> (visitCodeS (generator tc k) h p inl parent s = Some (r, h') \<longrightarrow> h' = h)
   \<and> (visitConditionalS (generator tc k) h p s = Some (r, h') \<longrightarrow> h' = h)
   \<and> (visitFilterS (generator tc k) h p inl parent s = Some (r, h') \<longrightarrow> h' = h)
   \<and> (weight h p + 3 \<le> k \<longrightarrow>
        visitS (generator tc k) h p parent inl s
          = Some (visit tc (deref h p) (deref_opt h parent) inl s, h))
   \<and> (compileS k tc (Compiler ast opts) = Some (out, h') \<longrightarrow> h' = cleanUpAST ast)
   \<and> (weight (cleanUpAST ast) [] + 3 \<le> k \<longrightarrow>
        compileS k tc (Compiler ast opts) = Some (generateCode tc ast opts, cleanUpAST ast))
   \<and> cleanUpAST (Block l f y ns) =
       Block l f y
         (concat (map (\<lambda>c. if nested_block c then contents_of (cleanUpAST c) else [cleanUpAST c]) ns))
   \<and> (list_all settled (before @ inner @ after) \<longrightarrow>
        cleanUpAST (Block l f y (before @ [Block l' f' False inner] @ after)) =
          Block l f y (before @ inner @ after))"
proof -
  note ro = read_onlyD [OF read_only_generator [of tc k], of h]
  have "visitS (generator tc k) h p parent inl s = Some (r, h') \<longrightarrow> h' = h"
    using ro(1) [of p parent inl s] by auto
  moreover have "visitBlockS (generator tc k) h p inl parent s = Some (r, h') \<longrightarrow> h' = h"
    using ro(2) [of p inl parent s] by auto
  moreover have "visitPipelessTextBlockS (generator tc k) h p noEscape s = Some (r, h') \<longrightarrow> h' = h"
    using ro(3) [of p noEscape s] by auto
  moreover have "visitCodeS (generator tc k) h p inl parent s = Some (r, h') \<longrightarrow> h' = h"
    using ro(4) [of p inl parent s] by auto
  moreover have "visitConditionalS (generator tc k) h p s = Some (r, h') \<longrightarrow> h' = h"
    using ro(5) [of p s] by auto
  moreover have "visitFilterS (generator tc k) h p inl parent s = Some (r, h') \<longrightarrow> h' = h"
    using ro(6) [of p inl parent s] by auto
  moreover have "weight h p + 3 \<le> k \<longrightarrow>
        visitS (generator tc k) h p parent inl s
          = Some (visit tc (deref h p) (deref_opt h parent) inl s, h)"
    using visitS_run by blast
  moreover have "compileS k tc (Compiler ast opts) = Some (out, h') \<longrightarrow> h' = cleanUpAST ast"
    using leaves_compileS [of k tc "Compiler ast opts" out h'] by (simp add: Compiler_def)
  moreover have "weight (cleanUpAST ast) [] + 3 \<le> k \<longrightarrow>
        compileS k tc (Compiler ast opts) = Some (generateCode tc ast opts, cleanUpAST ast)"
    using compileS_run [of "Compiler ast opts" k tc]
    by (simp add: Compiler_def generateCode_def)
  ultimately show ?thesis
    using cleanUpAST_Block [of l f y ns] cleanUpAST_splice [of before inner after l f y l' f']
    by blast
qed

text \<open>The run on a tag with a nested block and a code, with just enough depth, ends with
  the result of \<open>visit\<close> and the tree as it was; and in \<open>[a, Block [b, c], d]\<close> the
  children \<open>b, c\<close> take the place of the block between \<open>a\<close> and \<open>d\<close>.\<close>

theorem visitor_keeps_tree_witness:
  "visitS (generator no_constants (weight deep_tag [] + 3)) deep_tag [] None False at_depth_3
     = Some (visit no_constants (Some deep_tag) None False at_depth_3, deep_tag)
   \<and> cleanUpAST (Block 1 None False
        ([Text 1 None ''a'' False] @ [Block 2 None False [Text 2 None ''b'' False, Text 3 None ''c'' False]]
         @ [Text 4 None ''d'' False]))
      = Block 1 None False
          [Text 1 None ''a'' False, Text 2 None ''b'' False, Text 3 None ''c'' False, Text 4 None ''d'' False]"
proof -
  note inst = visitor_keeps_tree [where tc = no_constants and h = deep_tag and p = "[]"
      and parent = None and inl = False and s = at_depth_3 and k = "weight deep_tag [] + 3"
      and l = 1 and f = None and y = False
      and before = "[Text 1 None ''a'' False]" and l' = 2 and f' = None
      and inner = "[Text 2 None ''b'' False, Text 3 None ''c'' False]"
      and after = "[Text 4 None ''d'' False]"]
  have st: "list_all settled ([Text 1 None ''a'' False]
              @ [Text 2 None ''b'' False, Text 3 None ''c'' False] @ [Text 4 None ''d'' False])"
    by (simp add: settled_def nested_block_def)
  have 1: "visitS (generator no_constants (weight deep_tag [] + 3)) deep_tag [] None False at_depth_3
     = Some (visit no_constants (Some deep_tag) None False at_depth_3, deep_tag)"
    using inst [THEN conjunct2, THEN conjunct2, THEN conjunct2, THEN conjunct2, THEN conjunct2,
        THEN conjunct2, THEN conjunct1]
    by (simp del: visitor_simps)
  have 2: "cleanUpAST (Block 1 None False
        ([Text 1 None ''a'' False] @ [Block 2 None False [Text 2 None ''b'' False, Text 3 None ''c'' False]]
         @ [Text 4 None ''d'' False]))
      = Block 1 None False
          ([Text 1 None ''a'' False] @ [Text 2 None ''b'' False, Text 3 None ''c'' False]
           @ [Text 4 None ''d'' False])"
    using inst [THEN conjunct2, THEN conjunct2, THEN conjunct2, THEN conjunct2, THEN conjunct2,
        THEN conjunct2, THEN conjunct2, THEN conjunct2, THEN conjunct2, THEN conjunct2] st
    by blast
  show ?thesis using 1 2 by (simp del: visitor_simps cleanUpAST.simps)
qed

section \<open>The error for a malformed filter chain\<close>










end
